theory Spec2Isabelle
  imports Main "HOL-Library.Multiset" "HOL-Library.AList"
begin

section \<open>Python values\<close>

text \<open>
  A Python \<open>str\<close> is a sequence of Unicode code points and \<open>len\<close> counts them, so a
  character is the natural number of its code point and a string is a list of them.
  Python integers are unbounded: \<open>int\<close>. Every exception the modelled code can raise is
  a value of \<open>py_error\<close>, and a function that can raise returns \<open>py_error + 'a\<close>.
\<close>

type_synonym pychar = nat
type_synonym pystr = "pychar list"
type_synonym sample = "pystr \<times> pystr"

datatype py_error =
  ZeroDivisionError | ValueError | IndexError | IOError | AttributeError | OverflowError

definition str_of :: "string \<Rightarrow> pystr" where
  "str_of s = map of_char s"

text \<open>Running a fallible function over a list stops at the first exception.\<close>

fun map_err :: "('a \<Rightarrow> py_error + 'b) \<Rightarrow> 'a list \<Rightarrow> py_error + 'b list" where
  "map_err f [] = Inr []"
| "map_err f (x # xs) =
     (case f x of
        Inl e \<Rightarrow> Inl e
      | Inr y \<Rightarrow> (case map_err f xs of Inl e \<Rightarrow> Inl e | Inr ys \<Rightarrow> Inr (y # ys)))"

section \<open>The length index of \<open>bucket_schedule\<close>\<close>

text \<open>
  \<^verbatim>\<open>(i, int((len(s[0])//fuzzyness)<<14) + len(s[1])//fuzzyness)\<close>
  Floor division by zero raises; \<open><<\<close> on an unbounded integer is \<open>push_bit\<close>.
\<close>

definition length_key :: "int \<Rightarrow> sample \<Rightarrow> py_error + int" where
  "length_key fuzzyness s =
     (if fuzzyness = 0 then Inl ZeroDivisionError
      else Inr (push_bit 14 (int (length (fst s)) div fuzzyness)
                + int (length (snd s)) div fuzzyness))"

definition length_index :: "int \<Rightarrow> sample list \<Rightarrow> py_error + (nat \<times> int) list" where
  "length_index fuzzyness samples =
     map_err (\<lambda>(i, s). case length_key fuzzyness s of
                          Inl e \<Rightarrow> Inl e
                        | Inr k \<Rightarrow> Inr (i, k))
             (zip [0..<length samples] samples)"

section \<open>Filtering and truncating samples\<close>

text \<open>
  \<open>_filter_samples\<close> is called with \<open>max_length = float('inf')\<close>, so its bound is an
  integer or infinity; \<open>len(x) <= max_length-1\<close> is \<open>within_bound\<close>.
\<close>

datatype length_bound = Finite int | Infinity

fun within_bound :: "nat \<Rightarrow> length_bound \<Rightarrow> bool" where
  "within_bound n (Finite m) = (int n \<le> m - 1)"
| "within_bound n Infinity = True"

text \<open>
  \<open>list(set(samples))\<close> keeps one copy of every pair, in the iteration order of the
  set, which Python leaves to the hashes. The order is the parameter \<open>set_order\<close>, a
  rearrangement of the deduplicated list.
\<close>

definition filter_samples ::
  "(sample list \<Rightarrow> sample list) \<Rightarrow> sample list \<Rightarrow> length_bound \<Rightarrow> sample list" where
  "filter_samples set_order samples max_length =
     (let samples1 = filter (\<lambda>(x, t). 1 < length x \<and> within_bound (length x) max_length) samples;
          samples2 = filter (\<lambda>(x, t). 1 < length t \<and> within_bound (length t) max_length) samples1
      in set_order (remdups samples2))"

text \<open>The slice \<open>x[:limit]\<close>: a negative limit counts from the end.\<close>

definition slice_to :: "int \<Rightarrow> 'a list \<Rightarrow> 'a list" where
  "slice_to limit xs =
     (if limit < 0 then take (nat (int (length xs) + limit)) xs else take (nat limit) xs)"

definition truncate_samples :: "sample list \<Rightarrow> int \<Rightarrow> sample list" where
  "truncate_samples samples limit = map (\<lambda>(x, t). (slice_to limit x, slice_to limit t)) samples"

section \<open>\<open>TextLoader\<close>\<close>

text \<open>
  \<open>str.strip()\<close> removes the leading and trailing characters that \<open>str.isspace\<close>
  accepts. \<open>str.split("\n")\<close> cuts at every line feed and always returns at least one
  piece.
\<close>

definition isspace :: "pychar \<Rightarrow> bool" where
  "isspace c \<longleftrightarrow>
     (9 \<le> c \<and> c \<le> 13) \<or> (28 \<le> c \<and> c \<le> 32) \<or> c = 133 \<or> c = 160 \<or> c = 5760 \<or>
     (8192 \<le> c \<and> c \<le> 8202) \<or> c = 8232 \<or> c = 8233 \<or> c = 8239 \<or> c = 8287 \<or> c = 12288"

definition strip :: "pystr \<Rightarrow> pystr" where
  "strip x = rev (dropWhile isspace (rev (dropWhile isspace x)))"

fun split_lines :: "pystr \<Rightarrow> pystr list" where
  "split_lines [] = [[]]"
| "split_lines (c # cs) =
     (if c = 10 then [] # split_lines cs
      else (case split_lines cs of [] \<Rightarrow> [[c]] | l # ls \<Rightarrow> (c # l) # ls))"

text \<open>
  The file system maps a path to the text that \<open>open(path, "r", encoding="utf-8").read()\<close>
  returns, or to \<open>None\<close> when opening, reading or decoding the file fails; \<open>IOError\<close>
  stands for the exception raised then, whatever its class.
\<close>

type_synonym files = "pystr \<Rightarrow> pystr option"

record TextLoader =
  paths_X :: "pystr list"
  paths_t :: "pystr list"
  seq_len :: int
  samples :: "sample list"

fun read_paths ::
  "files \<Rightarrow> (pystr \<times> pystr) list \<Rightarrow> pystr list \<Rightarrow> pystr list
     \<Rightarrow> py_error + (pystr list \<times> pystr list)" where
  "read_paths fs [] data_X data_t = Inr (data_X, data_t)"
| "read_paths fs ((path_X, path_t) # ps) data_X data_t =
     (case fs path_X of
        None \<Rightarrow> Inl IOError
      | Some text_X \<Rightarrow>
          (case fs path_t of
             None \<Rightarrow> Inl IOError
           | Some text_t \<Rightarrow>
               read_paths fs ps (data_X @ split_lines text_X) (data_t @ split_lines text_t)))"

definition load_data :: "files \<Rightarrow> TextLoader \<Rightarrow> py_error + TextLoader" where
  "load_data fs self =
     (case read_paths fs (zip (paths_X self) (paths_t self)) [] [] of
        Inl e \<Rightarrow> Inl e
      | Inr (data_X, data_t) \<Rightarrow> Inr (self\<lparr>samples := zip data_X data_t\<rparr>))"

text \<open>
  The retention report divides by the number of samples before filtering; with no
  sample at all the division raises.
\<close>

definition preprocess_data ::
  "(sample list \<Rightarrow> sample list) \<Rightarrow> TextLoader \<Rightarrow> py_error + TextLoader" where
  "preprocess_data set_order self =
     (let stripped = map (\<lambda>(x, t). (strip x, strip t)) (samples self);
          samples_before = length stripped;
          filtered = filter_samples set_order stripped Infinity;
          truncated = truncate_samples filtered (seq_len self - 1)
      in if samples_before = 0 then Inl ZeroDivisionError
         else Inr (self\<lparr>samples := truncated\<rparr>))"

definition TextLoader_init ::
  "files \<Rightarrow> (sample list \<Rightarrow> sample list) \<Rightarrow> pystr list \<Rightarrow> pystr list \<Rightarrow> int
     \<Rightarrow> py_error + TextLoader" where
  "TextLoader_init fs set_order pX pt n =
     (case load_data fs \<lparr>paths_X = pX, paths_t = pt, seq_len = n, samples = []\<rparr> of
        Inl e \<Rightarrow> Inl e
      | Inr self \<Rightarrow> preprocess_data set_order self)"

section \<open>Arrays\<close>

text \<open>
  A numpy array is its shape and its elements in row-major order. The arrays built here
  have the element type \<open>float64\<close> and hold whole numbers, so an element is the \<open>int\<close>
  that the float equals. What \<open>_make_array\<close> stores are character ids, positions, ones
  and zeros, small integers that \<open>float64\<close> holds as they are; \<open>sos_id\<close> enters an array
  through a product, and its conversion is written out.
\<close>

datatype ndarray = NDArray (shape: "nat list") (elems: "int list")

definition zeros :: "nat list \<Rightarrow> ndarray" where
  "zeros sh = NDArray sh (replicate (prod_list sh) 0)"

definition ones :: "nat list \<Rightarrow> ndarray" where
  "ones sh = NDArray sh (replicate (prod_list sh) 1)"

text \<open>
  A Python integer that meets a \<open>float64\<close> array is converted to \<open>float64\<close>: it is
  rounded to 53 significant bits, a tie to the even neighbour, and the conversion raises
  \<open>OverflowError\<close> when the rounded magnitude reaches \<open>2 ** 1024\<close>.
\<close>

function bit_length :: "int \<Rightarrow> nat" where
  "bit_length n = (if n \<le> 0 then 0 else Suc (bit_length (n div 2)))"
  by pat_completeness auto

termination by (relation "measure nat") auto

declare bit_length.simps [simp del]

definition round_half_even :: "int \<Rightarrow> nat \<Rightarrow> int" where
  "round_half_even n s =
     (let q = n div 2 ^ s; r = n mod 2 ^ s
      in if 2 * r < 2 ^ s \<or> (2 * r = 2 ^ s \<and> even q) then q * 2 ^ s else (q + 1) * 2 ^ s)"

definition to_float64 :: "int \<Rightarrow> py_error + int" where
  "to_float64 k =
     (let m = round_half_even \<bar>k\<bar> (bit_length \<bar>k\<bar> - 53)
      in if 2 ^ 1024 \<le> m then Inl OverflowError else Inr (sgn k * m))"

text \<open>
  \<open>a * k\<close> for a \<open>float64\<close> value \<open>k\<close>. It is applied to an array of ones only, where
  every product is \<open>k\<close> itself.
\<close>

definition scale :: "ndarray \<Rightarrow> int \<Rightarrow> ndarray" where
  "scale a k = NDArray (shape a) (map (\<lambda>v. v * k) (elems a))"

text \<open>\<open>a[i]\<close>, flattened: the \<open>i\<close>-th block along the first axis.\<close>

definition row :: "ndarray \<Rightarrow> nat \<Rightarrow> int list" where
  "row a i = (let w = prod_list (tl (shape a)) in take w (drop (i * w) (elems a)))"

definition rows :: "ndarray \<Rightarrow> int list list" where
  "rows a = map (row a) [0..<hd (shape a)]"

definition of_rows :: "nat \<Rightarrow> nat \<Rightarrow> int list list \<Rightarrow> ndarray" where
  "of_rows n c rs = NDArray [n, c] (concat rs)"

text \<open>
  \<open>array[i, :len] = values\<close> on a two-dimensional array: the index must be in range,
  and the values must fill the slice exactly or be a single value to broadcast.
\<close>

definition assign_row_prefix :: "ndarray \<Rightarrow> nat \<Rightarrow> nat \<Rightarrow> int list \<Rightarrow> py_error + ndarray" where
  "assign_row_prefix array i len vals =
     (case shape array of
        [n, c] \<Rightarrow>
          (if n \<le> i then Inl IndexError
           else let w = min len c in
             if length vals = w then
               Inr (NDArray [n, c]
                      (take (i * c) (elems array) @ vals @ drop (i * c + w) (elems array)))
             else if length vals = 1 then
               Inr (NDArray [n, c]
                      (take (i * c) (elems array) @ replicate w (hd vals)
                         @ drop (i * c + w) (elems array)))
             else Inl ValueError)
      | _ \<Rightarrow> Inl IndexError)"

text \<open>\<open>array[:, :-1]\<close> and \<open>np.concatenate([a, b], 1)\<close> on two-dimensional arrays.\<close>

definition drop_last_column :: "ndarray \<Rightarrow> py_error + ndarray" where
  "drop_last_column array =
     (case shape array of
        [n, c] \<Rightarrow> Inr (of_rows n (c - 1) (map butlast (rows array)))
      | _ \<Rightarrow> Inl IndexError)"

definition concatenate_axis1 :: "ndarray \<Rightarrow> ndarray \<Rightarrow> py_error + ndarray" where
  "concatenate_axis1 a b =
     (case (shape a, shape b) of
        ([n, c], [n', c']) \<Rightarrow>
          (if n = n' then Inr (of_rows n (c + c') (map2 (@) (rows a) (rows b)))
           else Inl ValueError)
      | _ \<Rightarrow> Inl ValueError)"

text \<open>\<open>np.expand_dims(array, axis=-1)\<close>: a trailing axis of size 1, the elements as they are.\<close>

definition expand_dims_last :: "ndarray \<Rightarrow> ndarray" where
  "expand_dims_last array = NDArray (shape array @ [1]) (elems array)"

section \<open>\<open>TextBatchGenerator\<close>\<close>

text \<open>
  The alphabet is an external collaborator: its \<open>encode\<close> function and its \<open>sos_id\<close>
  are fields. \<open>batch_samples\<close> is \<open>self.samples\<close>, the samples of the current batch, and
  \<open>latest_batch_size\<close> the number of rows of the arrays; the base class sets both before
  it calls \<open>_make_batch\<close>. \<open>gen_seq_len\<close> is the generator's \<open>self.seq_len\<close>.
  \<open>_spaces\<close> and \<open>_mask\<close> are \<open>spaces\<close> and \<open>mask_seq\<close>.
\<close>

record Alphabet =
  encode :: "pystr \<Rightarrow> int list"
  sos_id :: int

record TextBatchGenerator =
  batch_samples :: "sample list"
  latest_batch_size :: nat
  alphabet :: Alphabet
  gen_seq_len :: int
  add_feature_dim :: bool
  use_dynamic_array_sizes :: bool
  add_eos_character :: bool

definition make_len_vec :: "'a list list \<Rightarrow> int \<Rightarrow> int \<Rightarrow> ndarray" where
  "make_len_vec sequences offset max_len =
     NDArray [length sequences] (map (\<lambda>seq. min (int (length seq) + offset) max_len) sequences)"

definition spaces :: "TextBatchGenerator \<Rightarrow> pystr \<Rightarrow> int list" where
  "spaces self sentence0 =
     (let sentence = (if add_eos_character self then sentence0 @ [32] else sentence0);
          found = map (\<lambda>(idx, c). int idx - 1)
                      (filter (\<lambda>(idx, c). c = 32) (zip [0..<length sentence] sentence))
      in found @ [int (length sentence) - 1])"

definition mask_seq :: "TextBatchGenerator \<Rightarrow> pystr \<Rightarrow> int list" where
  "mask_seq self sentence =
     replicate (length sentence) 1 @ (if add_eos_character self then [1] else [])"

fun fill_rows ::
  "(pystr \<Rightarrow> int list) \<Rightarrow> nat \<Rightarrow> ndarray \<Rightarrow> (nat \<times> pystr) list \<Rightarrow> py_error + ndarray" where
  "fill_rows function max_len array [] = Inr array"
| "fill_rows function max_len array ((sample_idx, seq) # rest) =
     (let processed_seq = function seq;
          len = min max_len (length processed_seq)
      in case assign_row_prefix array sample_idx len (take max_len processed_seq) of
           Inl e \<Rightarrow> Inl e
         | Inr array' \<Rightarrow> fill_rows function max_len array' rest)"

text \<open>
  \<open>max_len\<close> is \<open>None\<close> when the argument is omitted. \<open>max\<close> of an empty list and a
  negative dimension for \<open>np.zeros\<close> raise \<open>ValueError\<close>.
\<close>

definition make_array ::
  "TextBatchGenerator \<Rightarrow> pystr list \<Rightarrow> (pystr \<Rightarrow> int list) \<Rightarrow> int option
     \<Rightarrow> py_error + ndarray" where
  "make_array self sequences function max_len =
     (case (if use_dynamic_array_sizes self \<or> max_len = None \<or> max_len = Some 0
            then (if sequences = [] then Inl ValueError
                  else Inr (int (Max (set (map length sequences)))))
            else Inr (the max_len)) of
        Inl e \<Rightarrow> Inl e
      | Inr m \<Rightarrow>
          if m < 0 then Inl ValueError
          else fill_rows function (nat m) (zeros [latest_batch_size self, nat m])
                 (zip [0..<length sequences] sequences))"

definition and_then :: "py_error + 'a \<Rightarrow> ('a \<Rightarrow> py_error + 'b) \<Rightarrow> py_error + 'b" where
  "and_then r f = (case r of Inl e \<Rightarrow> Inl e | Inr v \<Rightarrow> f v)"

text \<open>
  \<^verbatim>\<open>sos_col = np.ones([self.latest_batch_size, 1]) * self.alphabet.sos_id\<close>
  The product converts \<open>sos_id\<close>, a Python integer, to \<open>float64\<close>.
\<close>

definition add_sos :: "TextBatchGenerator \<Rightarrow> ndarray \<Rightarrow> py_error + ndarray" where
  "add_sos self array =
     and_then (to_float64 (sos_id (alphabet self))) (\<lambda>sos.
       let sos_col = scale (ones [latest_batch_size self, 1]) sos
       in case drop_last_column array of
            Inl e \<Rightarrow> Inl e
          | Inr body \<Rightarrow> concatenate_axis1 sos_col body)"

text \<open>
  The batch is a dictionary from field names to arrays, kept as an association list in
  insertion order. \<open>zip(*self.samples)\<close> cannot be unpacked into two names when there is
  no sample.

  The module is Python 3 code: \<open>open\<close> is called with an \<open>encoding\<close> argument, which
  Python 2 rejects. A Python 3 \<open>dict\<close> has no attribute \<open>iteritems\<close>, so evaluating
  \<open>batch.iteritems()\<close> raises \<open>AttributeError\<close> and the body of the loop, which would
  replace the value of each key in turn, never runs.
\<close>

definition iteritems :: "(string \<times> ndarray) list \<Rightarrow> py_error + (string \<times> ndarray) list" where
  "iteritems d = Inl AttributeError"

definition add_feature_dims ::
  "(string \<times> ndarray) list \<Rightarrow> py_error + (string \<times> ndarray) list" where
  "add_feature_dims batch =
     and_then (iteritems batch) (\<lambda>items.
       Inr (fold (\<lambda>(key, array) b. AList.update key (expand_dims_last array) b) items batch))"

definition make_batch :: "TextBatchGenerator \<Rightarrow> py_error + (string \<times> ndarray) list" where
  "make_batch self =
     (if batch_samples self = [] then Inl ValueError
      else
        let x = map fst (batch_samples self);
            t = map snd (batch_samples self);
            n = gen_seq_len self;
            eos = (if add_eos_character self then 1 else 0)
        in
        and_then (make_array self x (encode (alphabet self)) (Some n)) (\<lambda>x_encoded.
        and_then (make_array self t (encode (alphabet self)) (Some n)) (\<lambda>t_encoded.
        and_then (add_sos self t_encoded) (\<lambda>t_encoded_go.
        and_then (make_array self x (spaces self) (Some (n div 4))) (\<lambda>x_spaces.
        and_then (make_array self t (mask_seq self) (Some n)) (\<lambda>t_mask.
          let batch =
                [(''x_encoded'', x_encoded),
                 (''t_encoded'', t_encoded),
                 (''t_encoded_go'', t_encoded_go),
                 (''x_spaces'', x_spaces),
                 (''t_mask'', t_mask),
                 (''x_len'', make_len_vec x eos 100000),
                 (''t_len'', make_len_vec t eos 100000),
                 (''x_spaces_len'', make_len_vec (map (spaces self) x) 0 (n div 4))]
          in if add_feature_dim self then add_feature_dims batch else Inr batch))))))"

section \<open>Schedules\<close>

text \<open>
  \<open>np.random.shuffle\<close> walks the positions from the last one down to position 1 and
  swaps each with a uniformly drawn position at or below it. The global random source
  is a stream \<open>draw\<close> of natural numbers read from a cursor on; the position drawn at
  \<open>i\<close> is \<open>draw k mod (i + 1)\<close>. \<open>np.random.permutation\<close> shuffles a copy the same way.
\<close>

fun shuffle_from :: "(nat \<Rightarrow> nat) \<Rightarrow> nat \<Rightarrow> nat \<Rightarrow> 'a list \<Rightarrow> 'a list" where
  "shuffle_from draw k 0 xs = xs"
| "shuffle_from draw k (Suc i) xs =
     (let j = draw k mod (Suc (Suc i))
      in shuffle_from draw (Suc k) i (xs[Suc i := xs ! j, j := xs ! Suc i]))"

definition np_shuffle :: "(nat \<Rightarrow> nat) \<Rightarrow> nat \<Rightarrow> 'a list \<Rightarrow> 'a list" where
  "np_shuffle draw k xs = shuffle_from draw k (length xs - 1) xs"

text \<open>
  Modelled from the spec: \<open>frostings.loader.get_number_of_batches\<close> and
  \<open>frostings.loader.get_start_end_indices\<close> are not among the sources. The spec gives
  the number of batches as \<open>ceil(num_samples / batch_size)\<close>, the batch numbers being
  the values the loop of \<open>bucket_schedule\<close> runs over, and the slice boundaries as the
  partition of \<open>[0, num_samples)\<close> into consecutive blocks of \<open>batch_size\<close> indices, of
  which only the last may be shorter.
\<close>

definition get_number_of_batches :: "nat \<Rightarrow> nat \<Rightarrow> py_error + nat list" where
  "get_number_of_batches batch_size num_samples =
     (if batch_size = 0 then Inl ZeroDivisionError
      else Inr [0..<(num_samples + batch_size - 1) div batch_size])"

definition get_start_end_indices :: "nat \<Rightarrow> nat \<Rightarrow> nat \<Rightarrow> nat \<times> nat" where
  "get_start_end_indices batch batch_size num_samples =
     (batch * batch_size, min ((batch + 1) * batch_size) num_samples)"

text \<open>
  A generator is a state and a function for \<open>next()\<close>: it yields a value, stops, or
  raises, and \<open>None\<close> stands for a call of \<open>next()\<close> that never returns. The keyword
  arguments of \<open>bucket_schedule\<close> are a record, with the defaults of its signature;
  \<open>sort_arg\<close> is the argument \<open>sort\<close>.
\<close>

datatype 'a step = Yield 'a | Stop | Raise py_error

record schedule_args =
  shuffle :: bool
  repeat :: bool
  fuzzyness :: int
  sort_arg :: bool

definition default_args :: schedule_args where
  "default_args = \<lparr>shuffle = False, repeat = False, fuzzyness = 3, sort_arg = False\<rparr>"

record bucket_state =
  args :: schedule_args
  batch_size :: nat
  sample_indices :: "(nat \<times> int) list"
  num_samples :: nat
  batch_numbers :: "nat list"
  pending :: "nat list"
  cursor :: nat

datatype bucket_gen =
    Created TextLoader nat schedule_args
  | Running bucket_state
  | Finished

text \<open>Calling the generator function only creates the generator.\<close>

definition bucket_schedule :: "TextLoader \<Rightarrow> nat \<Rightarrow> schedule_args \<Rightarrow> bucket_gen" where
  "bucket_schedule loader bsize a = Created loader bsize a"

text \<open>
  The top of the \<open>while\<close> body. With \<open>shuffle\<close>, the rows of the index array are
  shuffled and stably sorted by key again, and the batch numbers are permuted;
  \<open>sample_indices[:, 1]\<close> raises on the one-dimensional array that an empty sample list
  gives. Then the \<open>for\<close> loop starts over the batch numbers.
\<close>

definition begin_epoch :: "(nat \<Rightarrow> nat) \<Rightarrow> bucket_state \<Rightarrow> py_error + bucket_state" where
  "begin_epoch draw st =
     (if shuffle (args st) then
        (if sample_indices st = [] then Inl IndexError
         else
           let shuffled = np_shuffle draw (cursor st) (sample_indices st);
               c1 = cursor st + (length (sample_indices st) - 1);
               sorted = sort_key snd shuffled;
               permuted = np_shuffle draw c1 (batch_numbers st);
               c2 = c1 + (length (batch_numbers st) - 1)
           in Inr (st\<lparr>sample_indices := sorted, batch_numbers := permuted,
                      pending := permuted, cursor := c2\<rparr>))
      else Inr (st\<lparr>pending := batch_numbers st\<rparr>))"

text \<open>\<open>sample_indices[start:end, 0]\<close> for one batch number.\<close>

definition yield_batch :: "bucket_state \<Rightarrow> nat \<Rightarrow> nat list" where
  "yield_batch st batch =
     (case get_start_end_indices batch (batch_size st) (num_samples st) of
        (start, stop) \<Rightarrow> map fst (drop start (take stop (sample_indices st))))"

text \<open>
  The \<open>while True\<close> loop from the top of its body to the next \<open>yield\<close>: an epoch without
  batches is skipped, and with \<open>repeat\<close> the loop then runs on.
\<close>

partial_function (option) epoch_loop ::
  "(nat \<Rightarrow> nat) \<Rightarrow> bucket_state \<Rightarrow> (nat list step \<times> bucket_gen) option" where
  "epoch_loop draw st =
     (case begin_epoch draw st of
        Inl e \<Rightarrow> Some (Raise e, Finished)
      | Inr st' \<Rightarrow>
          (case pending st' of
             batch # rest \<Rightarrow>
               Some (Yield (yield_batch st' batch), Running (st'\<lparr>pending := rest\<rparr>))
           | [] \<Rightarrow>
               if repeat (args st') then epoch_loop draw st' else Some (Stop, Finished)))"

declare epoch_loop.simps [code]

definition bucket_next ::
  "(nat \<Rightarrow> nat) \<Rightarrow> bucket_gen \<Rightarrow> (nat list step \<times> bucket_gen) option" where
  "bucket_next draw g =
     (case g of
        Created loader bsize a \<Rightarrow>
          (case length_index (fuzzyness a) (samples loader) of
             Inl e \<Rightarrow> Some (Raise e, Finished)
           | Inr idx \<Rightarrow>
               if sort_arg a \<and> idx = [] then Some (Raise IndexError, Finished)
               else
                 (let sorted = (if sort_arg a then sort_key snd idx else idx);
                      n = length sorted
                  in (case get_number_of_batches bsize n of
                        Inl e \<Rightarrow> Some (Raise e, Finished)
                      | Inr numbers \<Rightarrow>
                          epoch_loop draw
                            \<lparr>args = a, batch_size = bsize, sample_indices = sorted,
                             num_samples = n, batch_numbers = numbers, pending = [],
                             cursor = 0\<rparr>)))
      | Running st \<Rightarrow>
          (case pending st of
             batch # rest \<Rightarrow>
               Some (Yield (yield_batch st batch), Running (st\<lparr>pending := rest\<rparr>))
           | [] \<Rightarrow> if repeat (args st) then epoch_loop draw st else Some (Stop, Finished))
      | Finished \<Rightarrow> Some (Stop, Finished))"

text \<open>
  Driving a generator: the values of the first \<open>n\<close> calls of \<open>next()\<close>, and how the
  generator was left, suspended after the last of them, exhausted, or failed.
\<close>

datatype 's ending = Suspended 's | Exhausted | Failed py_error

fun run ::
  "('s \<Rightarrow> ('a step \<times> 's) option) \<Rightarrow> nat \<Rightarrow> 's \<Rightarrow> ('a list \<times> 's ending) option" where
  "run nxt 0 s = Some ([], Suspended s)"
| "run nxt (Suc n) s =
     (case nxt s of
        None \<Rightarrow> None
      | Some (Yield x, s') \<Rightarrow>
          (case run nxt n s' of None \<Rightarrow> None | Some (xs, e) \<Rightarrow> Some (x # xs, e))
      | Some (Stop, s') \<Rightarrow> Some ([], Exhausted)
      | Some (Raise err, s') \<Rightarrow> Some ([], Failed err))"

text \<open>
  \<open>warmup_schedule\<close> takes two generator functions; each is the function that creates
  the generator and the generator's \<open>next()\<close>, and \<open>bucket_function\<close> is the default for
  both. The warmup generator is created with the fixed keyword arguments, the regular
  one with the caller's. The loop over \<open>enumerate(generator)\<close> asks the warmup generator
  for item \<open>i\<close> before it compares \<open>i\<close> with \<open>warmup_iterations\<close>. \<open>wbatch_size\<close> is the
  argument \<open>batch_size\<close>.
\<close>

record 's schedule_function =
  create :: "TextLoader \<Rightarrow> nat \<Rightarrow> schedule_args \<Rightarrow> 's"
  advance :: "'s \<Rightarrow> (nat list step \<times> 's) option"



record ('s1, 's2) warmup_call =
  loader :: TextLoader
  wbatch_size :: nat
  warmup_iterations :: int
  warmup_function :: "'s1 schedule_function"
  regular_function :: "'s2 schedule_function"
  kwargs :: schedule_args






section \<open>Auxiliary notions\<close>

text \<open>A two-dimensional array whose element count fits its shape.\<close>

definition well_formed2 :: "ndarray \<Rightarrow> bool" where
  "well_formed2 a \<longleftrightarrow> (\<exists>n c. shape a = [n, c] \<and> length (elems a) = n * c)"

text \<open>The dictionary that \<open>_make_batch\<close> builds from its arrays.\<close>

definition plain_batch ::
  "TextBatchGenerator \<Rightarrow> ndarray \<Rightarrow> ndarray \<Rightarrow> ndarray \<Rightarrow> ndarray \<Rightarrow> ndarray
     \<Rightarrow> (string \<times> ndarray) list" where
  "plain_batch self x_encoded t_encoded t_encoded_go x_spaces t_mask =
     [(''x_encoded'', x_encoded),
      (''t_encoded'', t_encoded),
      (''t_encoded_go'', t_encoded_go),
      (''x_spaces'', x_spaces),
      (''t_mask'', t_mask),
      (''x_len'', make_len_vec (map fst (batch_samples self))
                     (if add_eos_character self then 1 else 0) 100000),
      (''t_len'', make_len_vec (map snd (batch_samples self))
                     (if add_eos_character self then 1 else 0) 100000),
      (''x_spaces_len'', make_len_vec (map (spaces self) (map fst (batch_samples self))) 0
                            (gen_seq_len self div 4))]"

text \<open>What holds of the state of \<open>bucket_schedule\<close> between two epochs.\<close>

definition schedule_inv :: "bucket_state \<Rightarrow> bool" where
  "schedule_inv st \<longleftrightarrow>
     0 < batch_size st \<and> 0 < num_samples st \<and>
     length (sample_indices st) = num_samples st \<and>
     mset (map fst (sample_indices st)) = mset [0..<num_samples st] \<and>
     mset (batch_numbers st)
       = mset [0..<(num_samples st + batch_size st - 1) div batch_size st] \<and>
     (\<not> shuffle (args st) \<longrightarrow>
        batch_numbers st = [0..<(num_samples st + batch_size st - 1) div batch_size st])"


section \<open>Example inputs\<close>

text \<open>
  Two small corpora, a batch generator over a two-sample batch with an alphabet that
  encodes a character by its code point and appends 42 for the end of the sequence,
  a random source that always draws 0, and two calls of \<open>warmup_schedule\<close> with
  \<open>bucket_schedule\<close> for both phases.
\<close>

definition example_files :: files where
  "example_files p =
     (if p = str_of ''train.en'' then Some (str_of ''hello there\<newline>good morning\<newline>bye'')
      else if p = str_of ''train.fr'' then Some (str_of ''salut\<newline>bonjour'')
      else None)"

definition example_alphabet :: Alphabet where
  "example_alphabet = \<lparr>encode = (\<lambda>s. map int s @ [42]), sos_id = 2\<rparr>"

definition example_generator :: TextBatchGenerator where
  "example_generator =
     \<lparr>batch_samples = [(str_of ''hi there'', str_of ''salut''), (str_of ''yes'', str_of ''oui'')],
      latest_batch_size = 2, alphabet = example_alphabet, gen_seq_len = 10,
      add_feature_dim = False, use_dynamic_array_sizes = False, add_eos_character = True\<rparr>"

definition example_batch :: "(string \<times> ndarray) list" where
  "example_batch =
     [(''x_encoded'',
       NDArray [2, 10]
        [104, 105, 32, 116, 104, 101, 114, 101, 42, 0, 121, 101, 115, 42, 0, 0, 0, 0, 0, 0]),
      (''t_encoded'',
       NDArray [2, 10]
        [115, 97, 108, 117, 116, 42, 0, 0, 0, 0, 111, 117, 105, 42, 0, 0, 0, 0, 0, 0]),
      (''t_encoded_go'',
       NDArray [2, 10]
        [2, 115, 97, 108, 117, 116, 42, 0, 0, 0, 2, 111, 117, 105, 42, 0, 0, 0, 0, 0]),
      (''x_spaces'', NDArray [2, 2] [1, 7, 2, 3]),
      (''t_mask'',
       NDArray [2, 10]
        [1, 1, 1, 1, 1, 1, 0, 0, 0, 0, 1, 1, 1, 1, 0, 0, 0, 0, 0, 0]),
      (''x_len'', NDArray [2] [9, 4]),
      (''t_len'', NDArray [2] [6, 4]),
      (''x_spaces_len'', NDArray [2] [2, 2])]"

definition dynamic_generator :: TextBatchGenerator where
  "dynamic_generator = example_generator\<lparr>use_dynamic_array_sizes := True\<rparr>"

definition short_generator :: TextBatchGenerator where
  "short_generator = example_generator\<lparr>gen_seq_len := 3\<rparr>"

definition short_batch :: "(string \<times> ndarray) list" where
  "short_batch =
     [(''x_encoded'', NDArray [2, 3] [104, 105, 32, 121, 101, 115]),
      (''t_encoded'', NDArray [2, 3] [115, 97, 108, 111, 117, 105]),
      (''t_encoded_go'', NDArray [2, 3] [2, 115, 97, 2, 111, 117]),
      (''x_spaces'', NDArray [2, 8] [1, 7, 8, 0, 0, 0, 0, 0, 2, 3, 0, 0, 0, 0, 0, 0]),
      (''t_mask'', NDArray [2, 3] [1, 1, 1, 1, 1, 1]),
      (''x_len'', NDArray [2] [9, 4]),
      (''t_len'', NDArray [2] [6, 4]),
      (''x_spaces_len'', NDArray [2] [0, 0])]"

definition big_sos_generator :: TextBatchGenerator where
  "big_sos_generator =
     short_generator\<lparr>alphabet := example_alphabet\<lparr>sos_id := 9007199254740993\<rparr>\<rparr>"

definition big_sos_batch :: "(string \<times> ndarray) list" where
  "big_sos_batch =
     [(''x_encoded'', NDArray [2, 3] [104, 105, 32, 121, 101, 115]),
      (''t_encoded'', NDArray [2, 3] [115, 97, 108, 111, 117, 105]),
      (''t_encoded_go'',
       NDArray [2, 3] [9007199254740992, 115, 97, 9007199254740992, 111, 117]),
      (''x_spaces'', NDArray [2, 8] [1, 7, 8, 0, 0, 0, 0, 0, 2, 3, 0, 0, 0, 0, 0, 0]),
      (''t_mask'', NDArray [2, 3] [1, 1, 1, 1, 1, 1]),
      (''x_len'', NDArray [2] [9, 4]),
      (''t_len'', NDArray [2] [6, 4]),
      (''x_spaces_len'', NDArray [2] [0, 0])]"

definition three_samples :: TextLoader where
  "three_samples =
     \<lparr>paths_X = [], paths_t = [], seq_len = 10,
      samples = [(str_of ''hello'', str_of ''salut''), (str_of ''hi'', str_of ''oui''),
                 (str_of ''yes'', str_of ''bonjour'')]\<rparr>"

definition zero_draws :: "nat \<Rightarrow> nat" where
  "zero_draws k = 0"




section \<open>Properties\<close>

lemma length_index_ok:
  assumes "fuzz \<noteq> 0"
  shows "length_index fuzz smps =
           Inr (map (\<lambda>(i, s). (i, push_bit 14 (int (length (fst s)) div fuzz)
                                   + int (length (snd s)) div fuzz))
                    (zip [0..<length smps] smps))"
proof -
  have "map_err (\<lambda>(i, s). case length_key fuzz s of
                             Inl e \<Rightarrow> Inl e | Inr k \<Rightarrow> Inr (i, k)) ps =
        Inr (map (\<lambda>(i, s). (i, push_bit 14 (int (length (fst s)) div fuzz)
                                + int (length (snd s)) div fuzz)) ps)" for ps
    using assms by (induction ps) (auto simp: length_key_def)
  then show ?thesis by (simp add: length_index_def)
qed

lemma shifted_key_order:
  fixes a b a' b' :: int
  assumes "0 \<le> b" "b < 16384" "0 \<le> b'" "b' < 16384"
  shows "a * 16384 + b < a' * 16384 + b' \<longleftrightarrow> a < a' \<or> a = a' \<and> b < b'"
proof (cases a a' rule: linorder_cases)
  case less
  then have "a + 1 \<le> a'" by simp
  then have "(a + 1) * 16384 \<le> a' * 16384" by (rule mult_right_mono) simp
  with less assms show ?thesis by (simp add: algebra_simps)
next
  case equal
  then show ?thesis by simp
next
  case greater
  then have "a' + 1 \<le> a" by simp
  then have "(a' + 1) * 16384 \<le> a * 16384" by (rule mult_right_mono) simp
  with greater assms show ?thesis by (simp add: algebra_simps)
qed

text \<open>
  Claim C7 (as amended). For every sample at position \<open>i\<close> and every fuzziness of at least 1, the
  length index is built without error and its entry \<open>i\<close> pairs \<open>i\<close> with the key
  \<open>((len(source) // fuzziness) << 14) + (len(target) // fuzziness)\<close>, which is the
  source quotient times 16384 plus the target quotient. Source length is the primary
  axis and target length the tiebreaker among the samples whose target quotients fit
  in the 14 shifted bits, that is, are below 16384: of two such samples the one with the smaller source quotient has the smaller key,
  and with equal source quotients the keys compare as the target quotients do.
\<close>

theorem length_key_formula:
  fixes fuzz :: int
  assumes "1 \<le> fuzz"
  shows "\<exists>idx. length_index fuzz smps = Inr idx \<and> length idx = length smps \<and>
           (\<forall>i < length smps.
              idx ! i = (i, push_bit 14 (int (length (fst (smps ! i))) div fuzz)
                            + int (length (snd (smps ! i))) div fuzz) \<and>
              snd (idx ! i) = (int (length (fst (smps ! i))) div fuzz) * 16384
                            + int (length (snd (smps ! i))) div fuzz \<and>
              (\<forall>j < length smps.
                 int (length (snd (smps ! i))) div fuzz < 16384 \<longrightarrow>
                 int (length (snd (smps ! j))) div fuzz < 16384 \<longrightarrow>
                 (snd (idx ! i) < snd (idx ! j) \<longleftrightarrow>
                    int (length (fst (smps ! i))) div fuzz
                      < int (length (fst (smps ! j))) div fuzz \<or>
                    int (length (fst (smps ! i))) div fuzz
                      = int (length (fst (smps ! j))) div fuzz \<and>
                    int (length (snd (smps ! i))) div fuzz
                      < int (length (snd (smps ! j))) div fuzz)))"
proof -
  let ?k = "\<lambda>s::sample. push_bit 14 (int (length (fst s)) div fuzz)
                          + int (length (snd s)) div fuzz"
  let ?idx = "map (\<lambda>(i, s). (i, ?k s)) (zip [0..<length smps] smps)"
  have ne: "fuzz \<noteq> 0" using assms by simp
  have eq: "length_index fuzz smps = Inr ?idx"
    by (rule length_index_ok [OF ne])
  have nth: "?idx ! i = (i, ?k (smps ! i))" if "i < length smps" for i
    using that by simp
  have mult: "?k s = (int (length (fst s)) div fuzz) * 16384
                      + int (length (snd s)) div fuzz" for s :: sample
    by (simp add: push_bit_eq_mult)
  have nonneg: "0 \<le> int (length (snd s)) div fuzz" for s :: sample
    using assms by (simp add: pos_imp_zdiv_nonneg_iff)
  have order: "(?k s < ?k s') \<longleftrightarrow>
       (int (length (fst s)) div fuzz < int (length (fst s')) div fuzz \<or>
        int (length (fst s)) div fuzz = int (length (fst s')) div fuzz \<and>
        int (length (snd s)) div fuzz < int (length (snd s')) div fuzz)"
    if "int (length (snd s)) div fuzz < 16384"
       "int (length (snd s')) div fuzz < 16384" for s s' :: sample
    unfolding mult by (rule shifted_key_order [OF nonneg that(1) nonneg that(2)])
  show ?thesis
  proof (intro exI conjI allI impI)
    show "length_index fuzz smps = Inr ?idx" by (rule eq)
    show "length ?idx = length smps" by simp
  next
    fix i assume "i < length smps"
    then show "?idx ! i = (i, ?k (smps ! i))" by (rule nth)
  next
    fix i assume "i < length smps"
    then show "snd (?idx ! i) = (int (length (fst (smps ! i))) div fuzz) * 16384
                            + int (length (snd (smps ! i))) div fuzz"
      using mult [of "smps ! i"] by (simp only: nth snd_conv)
  next
    fix i j
    assume "i < length smps" "j < length smps"
       and "int (length (snd (smps ! i))) div fuzz < 16384"
       and "int (length (snd (smps ! j))) div fuzz < 16384"
    then show "snd (?idx ! i) < snd (?idx ! j) \<longleftrightarrow>
                    int (length (fst (smps ! i))) div fuzz
                      < int (length (fst (smps ! j))) div fuzz \<or>
                    int (length (fst (smps ! i))) div fuzz
                      = int (length (fst (smps ! j))) div fuzz \<and>
                    int (length (snd (smps ! i))) div fuzz
                      < int (length (snd (smps ! j))) div fuzz"
      using order [of "smps ! i" "smps ! j"] by (simp only: nth snd_conv)
  qed
qed

theorem length_key_formula_witness:
  "\<exists>idx. length_index 3 [(str_of ''hello there'', str_of ''salut''), (str_of ''hi'', str_of ''bonjour'')]
            = Inr idx \<and> idx = [(0, 49153), (1, 2)]"
  using length_key_formula [of 3 "[(str_of ''hello there'', str_of ''salut''), (str_of ''hi'', str_of ''bonjour'')]"]
  by (simp add: length_index_def length_key_def str_of_def)

text \<open>
  The claim as stated fails: the ordering needs the bound on the target quotients. With
  fuzziness 1, a sample with a source of 2 characters and a target of 16387 characters
  has the key \<open>2 * 16384 + 16387 = 49155\<close>, above the key \<open>3 * 16384 + 2 = 49154\<close> of a
  sample with a source of 3 characters and a target of 2 characters: the sample with the
  shorter source sorts after the one with the longer source.
\<close>

theorem length_key_order_counterexample:
  "length_index 1 [(replicate 2 97, replicate 16387 98), (replicate 3 97, replicate 2 98)]
     = Inr [(0, 49155), (1, 49154)]"
  by (simp add: length_index_def length_key_def)

subsection \<open>Loading and preprocessing\<close>

lemma split_lines_nonempty: "split_lines s \<noteq> []"
  by (induction s) (auto split: list.splits)

lemma read_paths_ok:
  assumes "\<forall>(a, b) \<in> set ps. fs a \<noteq> None \<and> fs b \<noteq> None"
  shows "read_paths fs ps dX dt =
           Inr (dX @ concat (map (\<lambda>p. split_lines (the (fs (fst p)))) ps),
                dt @ concat (map (\<lambda>p. split_lines (the (fs (snd p)))) ps))"
  using assms
proof (induction ps arbitrary: dX dt)
  case Nil
  then show ?case by simp
next
  case (Cons p ps)
  obtain a b where p: "p = (a, b)" by (cases p)
  from Cons.prems p obtain ta tb where "fs a = Some ta" "fs b = Some tb" by auto
  moreover from Cons.prems have "\<forall>(a, b) \<in> set ps. fs a \<noteq> None \<and> fs b \<noteq> None" by simp
  ultimately show ?case using Cons.IH p by simp
qed

lemma slice_to_length:
  assumes "0 \<le> limit"
  shows "length (slice_to limit xs) = min (length xs) (nat limit)"
  using assms by (simp add: slice_to_def)

lemma filter_samples_set:
  assumes "\<forall>ys. mset (set_order ys) = mset ys"
  shows "set (filter_samples set_order ss Infinity) = {(x, t) \<in> set ss. 1 < length x \<and> 1 < length t}"
    and "distinct (filter_samples set_order ss Infinity)"
proof -
  let ?ys = "remdups (filter (\<lambda>(x, t). 1 < length t \<and> within_bound (length t) Infinity)
               (filter (\<lambda>(x, t). 1 < length x \<and> within_bound (length x) Infinity) ss))"
  have m: "mset (set_order ?ys) = mset ?ys" using assms by blast
  have "set (set_order ?ys) = set ?ys" by (rule mset_eq_setD [OF m])
  then show "set (filter_samples set_order ss Infinity) = {(x, t) \<in> set ss. 1 < length x \<and> 1 < length t}"
    by (auto simp: filter_samples_def)
  have "distinct (set_order ?ys) \<longleftrightarrow> distinct ?ys" by (rule mset_eq_imp_distinct_iff [OF m])
  then show "distinct (filter_samples set_order ss Infinity)"
    by (simp add: filter_samples_def)
qed

lemma zip_take_min: "zip (take (min (length xs) (length ys)) xs) (take (min (length xs) (length ys)) ys) = zip xs ys"
proof -
  have "zip (take (min (length xs) (length ys)) xs) (take (min (length xs) (length ys)) ys)
        = take (min (length xs) (length ys)) (zip xs ys)" by (simp add: take_zip)
  then show ?thesis by simp
qed

text \<open>
  Claim C1 (as amended). When \<open>seq_len\<close> is at least 3 and at least one line pair was
  read, preprocessing succeeds and every retained sample \<open>(x, t)\<close> satisfies
  \<open>1 < len(x) <= seq_len-1\<close> and \<open>1 < len(t) <= seq_len-1\<close>. The retained samples are the
  truncations to \<open>seq_len-1\<close> characters of pairwise distinct stripped pairs (exactly
  those with both sides longer than one character): deduplication comes before
  truncation, so two retained samples can be equal when two distinct pairs agree on
  their first \<open>seq_len-1\<close> characters on both sides.
\<close>

theorem preprocess_data_bounds:
  assumes perm: "\<forall>ys. mset (set_order ys) = mset ys"
      and len: "3 \<le> seq_len self"
      and ne: "samples self \<noteq> []"
  shows "\<exists>self'. preprocess_data set_order self = Inr self' \<and>
           (\<forall>(x, t) \<in> set (samples self').
               1 < length x \<and> int (length x) \<le> seq_len self - 1 \<and>
               1 < length t \<and> int (length t) \<le> seq_len self - 1) \<and>
           (\<exists>us. distinct us \<and>
                 set us = {(x, t) \<in> (\<lambda>(x, t). (strip x, strip t)) ` set (samples self).
                            1 < length x \<and> 1 < length t} \<and>
                 samples self' = truncate_samples us (seq_len self - 1))"
proof -
  let ?stripped = "map (\<lambda>(x, t). (strip x, strip t)) (samples self)"
  let ?us = "filter_samples set_order ?stripped Infinity"
  let ?self' = "self\<lparr>samples := truncate_samples ?us (seq_len self - 1)\<rparr>"
  have res: "preprocess_data set_order self = Inr ?self'"
    using ne by (simp add: preprocess_data_def Let_def)
  have us_set: "set ?us = {(x, t) \<in> set ?stripped. 1 < length x \<and> 1 < length t}"
    by (rule filter_samples_set(1) [OF perm])
  have us_dist: "distinct ?us" by (rule filter_samples_set(2) [OF perm])
  have lim: "0 \<le> seq_len self - 1" "2 \<le> nat (seq_len self - 1)" using len by simp_all
  have bounds: "1 < length x \<and> int (length x) \<le> seq_len self - 1 \<and>
                1 < length t \<and> int (length t) \<le> seq_len self - 1"
    if "(x, t) \<in> set (truncate_samples ?us (seq_len self - 1))" for x t
  proof -
    from that obtain x0 t0 where in_us: "(x0, t0) \<in> set ?us"
      and x: "x = slice_to (seq_len self - 1) x0" and t: "t = slice_to (seq_len self - 1) t0"
      by (auto simp: truncate_samples_def)
    from in_us us_set have "1 < length x0" "1 < length t0" by auto
    then have "2 \<le> min (length x0) (nat (seq_len self - 1))"
              "2 \<le> min (length t0) (nat (seq_len self - 1))"
      using lim by simp_all
    moreover have "int (min n (nat (seq_len self - 1))) \<le> seq_len self - 1" for n
      using lim by simp
    ultimately show ?thesis
      using len unfolding x t slice_to_length [OF lim(1)] by (intro conjI) simp_all
  qed
  show ?thesis
  proof (intro exI conjI)
    show "preprocess_data set_order self = Inr ?self'" by (rule res)
    show "\<forall>(x, t) \<in> set (samples ?self').
               1 < length x \<and> int (length x) \<le> seq_len self - 1 \<and>
               1 < length t \<and> int (length t) \<le> seq_len self - 1"
      using bounds by auto
    show "distinct ?us" by (rule us_dist)
    show "set ?us = {(x, t) \<in> (\<lambda>(x, t). (strip x, strip t)) ` set (samples self).
                            1 < length x \<and> 1 < length t}"
      using us_set by simp
    show "samples ?self' = truncate_samples ?us (seq_len self - 1)" by simp
  qed
qed


theorem preprocess_data_bounds_witness:
  "preprocess_data rev \<lparr>paths_X = [], paths_t = [], seq_len = 4,
       samples = [(str_of ''  abcde'', str_of ''xy''), (str_of ''a'', str_of ''xyz'')]\<rparr>
     = Inr \<lparr>paths_X = [], paths_t = [], seq_len = 4,
             samples = [(str_of ''abc'', str_of ''xy'')]\<rparr>"
proof -
  let ?self = "\<lparr>paths_X = [], paths_t = [], seq_len = 4,
       samples = [(str_of ''  abcde'', str_of ''xy''), (str_of ''a'', str_of ''xyz'')]\<rparr>"
  have h1: "\<forall>ys::sample list. mset (rev ys) = mset ys" by simp
  have h2: "3 \<le> seq_len ?self" by simp
  have h3: "samples ?self \<noteq> []" by simp
  from preprocess_data_bounds [OF h1 h2 h3]
  obtain self' where "preprocess_data rev ?self = Inr self'" by blast
  then show ?thesis
    by (simp add: preprocess_data_def filter_samples_def truncate_samples_def slice_to_def
                  strip_def isspace_def str_of_def)
qed

text \<open>
  The claim as stated fails: with \<open>seq_len = 2\<close> the two distinct pairs
  \<open>("ab", "xy")\<close> and \<open>("ac", "xy")\<close> pass the filter, survive deduplication and are then
  both truncated to \<open>("a", "x")\<close>, so the retained samples have length 1 and are equal.
  The two pairs are equal, so the result is the same under every iteration order of
  the set.
\<close>

theorem preprocess_data_counterexample:
  "preprocess_data id \<lparr>paths_X = [], paths_t = [], seq_len = 2,
       samples = [(str_of ''ab'', str_of ''xy''), (str_of ''ac'', str_of ''xy'')]\<rparr>
     = Inr \<lparr>paths_X = [], paths_t = [], seq_len = 2,
             samples = [(str_of ''a'', str_of ''x''), (str_of ''a'', str_of ''x'')]\<rparr>"
  by (simp add: preprocess_data_def filter_samples_def truncate_samples_def slice_to_def
                strip_def isspace_def str_of_def)

text \<open>
  Claim C9 (as amended). When every file named by the paired paths can be read,
  \<open>_load_data\<close> raises nothing, whatever the lengths of the two path lists and of the
  two line streams: surplus paths of the longer path list are not read, line \<open>i\<close> of
  the source stream is paired with line \<open>i\<close> of the target stream, and the sample list
  stops at the shorter stream. Construction then continues with preprocessing of these
  pairs, and succeeds when neither path list is empty.
\<close>

theorem load_data_stops_at_shorter:
  assumes readable: "\<forall>(a, b) \<in> set (zip pX pt). fs a \<noteq> None \<and> fs b \<noteq> None"
  shows "let data_X = concat (map (\<lambda>p. split_lines (the (fs p))) (take (length pt) pX));
             data_t = concat (map (\<lambda>p. split_lines (the (fs p))) (take (length pX) pt));
             m = min (length data_X) (length data_t);
             loaded = \<lparr>paths_X = pX, paths_t = pt, seq_len = n,
                        samples = zip (take m data_X) (take m data_t)\<rparr>
         in load_data fs \<lparr>paths_X = pX, paths_t = pt, seq_len = n, samples = []\<rparr> = Inr loaded \<and>
            length (samples loaded) = m \<and>
            TextLoader_init fs set_order pX pt n = preprocess_data set_order loaded \<and>
            (pX \<noteq> [] \<and> pt \<noteq> [] \<longrightarrow>
               (\<exists>self. TextLoader_init fs set_order pX pt n = Inr self))"
proof -
  let ?ps = "zip pX pt"
  let ?dX = "concat (map (\<lambda>p. split_lines (the (fs p))) (take (length pt) pX))"
  let ?dt = "concat (map (\<lambda>p. split_lines (the (fs p))) (take (length pX) pt))"
  let ?m = "min (length ?dX) (length ?dt)"
  let ?loaded = "\<lparr>paths_X = pX, paths_t = pt, seq_len = n,
                        samples = zip (take ?m ?dX) (take ?m ?dt)\<rparr>"
  have tk: "take (min (length xs) k) xs = take k xs" for xs :: "pystr list" and k
    by (simp add: min_def)
  have "map (\<lambda>p. split_lines (the (fs (fst p)))) ?ps
          = map (\<lambda>p. split_lines (the (fs p))) (map fst ?ps)" by (simp add: o_def)
  also have "map fst ?ps = take (length pt) pX"
    by (simp only: map_fst_zip_take tk)
  finally have mX: "map (\<lambda>p. split_lines (the (fs (fst p)))) ?ps
            = map (\<lambda>p. split_lines (the (fs p))) (take (length pt) pX)" .
  have "map (\<lambda>p. split_lines (the (fs (snd p)))) ?ps
          = map (\<lambda>p. split_lines (the (fs p))) (map snd ?ps)" by (simp add: o_def)
  also have "map snd ?ps = take (length pX) pt"
    by (simp only: map_snd_zip_take min.commute [of "length pX"] tk)
  finally have mt: "map (\<lambda>p. split_lines (the (fs (snd p)))) ?ps
            = map (\<lambda>p. split_lines (the (fs p))) (take (length pX) pt)" .
  have rp: "read_paths fs ?ps [] [] = Inr (?dX, ?dt)"
    unfolding read_paths_ok [OF readable] mX mt by simp
  have ld: "load_data fs \<lparr>paths_X = pX, paths_t = pt, seq_len = n, samples = []\<rparr> = Inr ?loaded"
    by (simp add: load_data_def rp zip_take_min)
  have len: "length (samples ?loaded) = ?m" by simp
  have init: "TextLoader_init fs set_order pX pt n = preprocess_data set_order ?loaded"
    by (simp only: TextLoader_init_def ld sum.case)
  have ok: "\<exists>self. TextLoader_init fs set_order pX pt n = Inr self" if "pX \<noteq> []" "pt \<noteq> []"
  proof -
    from that obtain a as b bs where pX: "pX = a # as" and pt: "pt = b # bs"
      by (cases pX; cases pt) auto
    have "?dX \<noteq> []" "?dt \<noteq> []" by (simp_all add: pX pt split_lines_nonempty)
    then have "samples ?loaded \<noteq> []" by (simp add: zip_take_min)
    then show ?thesis unfolding init by (simp add: preprocess_data_def Let_def)
  qed
  show ?thesis
    unfolding Let_def using ld len init ok by blast
qed

theorem load_data_stops_at_shorter_witness:
  "TextLoader_init example_files id [str_of ''train.en''] [str_of ''train.fr'', str_of ''missing''] 6
     = Inr \<lparr>paths_X = [str_of ''train.en''], paths_t = [str_of ''train.fr'', str_of ''missing''],
             seq_len = 6,
             samples = [(str_of ''hello'', str_of ''salut''), (str_of ''good '', str_of ''bonjo'')]\<rparr>"
proof -
  have h: "\<forall>(a, b) \<in> set (zip [str_of ''train.en''] [str_of ''train.fr'', str_of ''missing'']).
             example_files a \<noteq> None \<and> example_files b \<noteq> None"
    by (simp add: example_files_def str_of_def)
  have "\<exists>self. TextLoader_init example_files id [str_of ''train.en'']
                  [str_of ''train.fr'', str_of ''missing''] 6 = Inr self"
    using load_data_stops_at_shorter [OF h, of 6 id] unfolding Let_def by blast
  then show ?thesis
    by (simp add: TextLoader_init_def load_data_def example_files_def str_of_def
                  preprocess_data_def filter_samples_def truncate_samples_def slice_to_def
                  strip_def isspace_def)
qed

text \<open>
  The claim as stated fails when the shorter path list is empty: no file is read, no
  line pair exists, and the retention report of \<open>_preprocess_data\<close> divides by zero.
\<close>

theorem TextLoader_init_counterexample:
  "TextLoader_init example_files id [] [str_of ''train.fr''] 6 = Inl ZeroDivisionError"
  by (simp add: TextLoader_init_def load_data_def preprocess_data_def)

subsection \<open>Batch arrays\<close>

lemma row_block_bound:
  fixes i n c w :: nat
  assumes "i < n" "w \<le> c"
  shows "i * c + w \<le> n * c"
proof -
  have "i * c + w \<le> i * c + c" using assms(2) by simp
  also have "\<dots> = Suc i * c" by simp
  also have "\<dots> \<le> n * c" using assms(1) by (intro mult_le_mono1) simp
  finally show ?thesis .
qed

lemma assign_row_prefix_shape:
  assumes "assign_row_prefix a i len vs = Inr a'"
  shows "shape a' = shape a"
  using assms
  by (auto simp: assign_row_prefix_def Let_def split: list.splits if_splits)

lemma assign_row_prefix_well_formed:
  assumes "assign_row_prefix a i len vs = Inr a'" and "well_formed2 a"
  shows "well_formed2 a'"
proof -
  from assms(2) obtain n c where sh: "shape a = [n, c]" and le: "length (elems a) = n * c"
    by (auto simp: well_formed2_def)
  let ?w = "min len c"
  from assms(1) sh have i: "i < n"
    by (auto simp: assign_row_prefix_def Let_def split: if_splits)
  have b: "i * c + ?w \<le> n * c" by (rule row_block_bound [OF i]) simp
  have b': "i * c \<le> n * c" using i by (intro mult_le_mono1) simp
  have "shape a' = [n, c] \<and> length (elems a') = n * c"
    using assms(1) sh i b b' le
    by (auto simp: assign_row_prefix_def Let_def split: if_splits)
  then show ?thesis by (auto simp: well_formed2_def)
qed

lemma fill_rows_shape:
  assumes "fill_rows f m a ps = Inr a'"
  shows "shape a' = shape a"
  using assms
proof (induction ps arbitrary: a)
  case Nil
  then show ?case by simp
next
  case (Cons p ps)
  obtain i seq where p: "p = (i, seq)" by (cases p)
  from Cons.prems p obtain b where
    b: "assign_row_prefix a i (min m (length (f seq))) (take m (f seq)) = Inr b"
    and r: "fill_rows f m b ps = Inr a'"
    by (auto simp: Let_def split: sum.splits)
  from Cons.IH [OF r] assign_row_prefix_shape [OF b] show ?case by simp
qed

lemma fill_rows_well_formed:
  assumes "fill_rows f m a ps = Inr a'" and "well_formed2 a"
  shows "well_formed2 a'"
  using assms
proof (induction ps arbitrary: a)
  case Nil
  then show ?case by simp
next
  case (Cons p ps)
  obtain i seq where p: "p = (i, seq)" by (cases p)
  from Cons.prems p obtain b where
    b: "assign_row_prefix a i (min m (length (f seq))) (take m (f seq)) = Inr b"
    and r: "fill_rows f m b ps = Inr a'"
    by (auto simp: Let_def split: sum.splits)
  from Cons.IH [OF r assign_row_prefix_well_formed [OF b Cons.prems(2)]] show ?case .
qed

lemma fill_rows_succeeds:
  assumes "shape a = [n, m]" and "\<forall>(i, seq) \<in> set ps. i < n"
  shows "\<exists>a'. fill_rows f m a ps = Inr a'"
  using assms
proof (induction ps arbitrary: a)
  case Nil
  then show ?case by simp
next
  case (Cons p ps)
  obtain i seq where p: "p = (i, seq)" by (cases p)
  from Cons.prems p have i: "i < n" by simp
  let ?vs = "take m (f seq)"
  let ?b = "NDArray [n, m] (take (i * m) (elems a) @ ?vs
              @ drop (i * m + min (min m (length (f seq))) m) (elems a))"
  have b: "assign_row_prefix a i (min m (length (f seq))) ?vs = Inr ?b"
    using i Cons.prems(1) by (simp add: assign_row_prefix_def Let_def min.commute)
  have "\<exists>a'. fill_rows f m ?b ps = Inr a'"
    by (rule Cons.IH) (use Cons.prems in simp_all)
  then show ?case using b p by (simp add: Let_def)
qed

lemma zeros_well_formed: "well_formed2 (zeros [n, c])"
  by (simp add: well_formed2_def zeros_def)

lemma make_array_longest:
  assumes "use_dynamic_array_sizes self \<or> max_len = None \<or> max_len = Some 0"
      and "make_array self sequences f max_len = Inr a"
  shows "shape a = [latest_batch_size self, Max (set (map length sequences))]" and "well_formed2 a"
proof -
  let ?m = "Max (set (map length sequences))"
  from assms have ne: "sequences \<noteq> []"
    by (auto simp: make_array_def split: if_splits)
  with assms have f: "fill_rows f ?m (zeros [latest_batch_size self, ?m])
                        (zip [0..<length sequences] sequences) = Inr a"
    by (simp add: make_array_def split: if_splits)
  from fill_rows_shape [OF f] show "shape a = [latest_batch_size self, ?m]"
    by (simp add: zeros_def)
  from fill_rows_well_formed [OF f zeros_well_formed] show "well_formed2 a" .
qed

lemma make_array_fixed:
  assumes "\<not> use_dynamic_array_sizes self" "max_len = Some m" "m \<noteq> 0"
      and "make_array self sequences f max_len = Inr a"
  shows "0 < m" and "shape a = [latest_batch_size self, nat m]" and "well_formed2 a"
proof -
  from assms show pos: "0 < m"
    by (auto simp: make_array_def split: if_splits)
  with assms have f: "fill_rows f (nat m) (zeros [latest_batch_size self, nat m])
                        (zip [0..<length sequences] sequences) = Inr a"
    by (simp add: make_array_def split: if_splits)
  from fill_rows_shape [OF f] show "shape a = [latest_batch_size self, nat m]"
    by (simp add: zeros_def)
  from fill_rows_well_formed [OF f zeros_well_formed] show "well_formed2 a" .
qed

lemma make_array_succeeds:
  assumes "use_dynamic_array_sizes self \<or> max_len = None \<or> max_len = Some 0"
      and "sequences \<noteq> []" and "length sequences \<le> latest_batch_size self"
  shows "\<exists>a. make_array self sequences f max_len = Inr a"
proof -
  let ?m = "Max (set (map length sequences))"
  have "\<forall>(i, seq) \<in> set (zip [0..<length sequences] sequences). i < latest_batch_size self"
    using assms(3) by (auto dest!: set_zip_leftD)
  then have "\<exists>a. fill_rows f ?m (zeros [latest_batch_size self, ?m])
                        (zip [0..<length sequences] sequences) = Inr a"
    by (intro fill_rows_succeeds) (simp_all add: zeros_def)
  then show ?thesis using assms(1,2) by (simp add: make_array_def)
qed

lemma make_batch_parts:
  assumes "make_batch self = Inr batch"
  obtains x_encoded t_encoded t_encoded_go x_spaces t_mask where
    "batch_samples self \<noteq> []"
    "make_array self (map fst (batch_samples self)) (encode (alphabet self))
       (Some (gen_seq_len self)) = Inr x_encoded"
    "make_array self (map snd (batch_samples self)) (encode (alphabet self))
       (Some (gen_seq_len self)) = Inr t_encoded"
    "add_sos self t_encoded = Inr t_encoded_go"
    "make_array self (map fst (batch_samples self)) (spaces self)
       (Some (gen_seq_len self div 4)) = Inr x_spaces"
    "make_array self (map snd (batch_samples self)) (mask_seq self)
       (Some (gen_seq_len self)) = Inr t_mask"
    "batch = plain_batch self x_encoded t_encoded t_encoded_go x_spaces t_mask"
    "\<not> add_feature_dim self"
  using assms
  by (auto simp: make_batch_def and_then_def Let_def plain_batch_def add_feature_dims_def
                 iteritems_def
           split: if_splits sum.splits)

lemma block_of_concat:
  assumes "\<forall>r \<in> set rs. length r = c" and "i < length rs"
  shows "take c (drop (i * c) (concat rs)) = rs ! i"
  using assms
proof (induction rs arbitrary: i)
  case Nil
  then show ?case by simp
next
  case (Cons r rs)
  show ?case
  proof (cases i)
    case 0
    with Cons.prems show ?thesis by simp
  next
    case (Suc j)
    with Cons.prems have "take c (drop (j * c) (concat rs)) = rs ! j"
      by (intro Cons.IH) simp_all
    with Suc Cons.prems show ?thesis by simp
  qed
qed

lemma row_of_rows:
  assumes "\<forall>r \<in> set rs. length r = c" and "i < length rs"
  shows "row (of_rows n c rs) i = rs ! i"
  using block_of_concat [OF assms] by (simp add: row_def of_rows_def)

lemma row_length:
  assumes "shape a = [n, c]" "length (elems a) = n * c" "i < n"
  shows "length (row a i) = c"
proof -
  have "i * c + c \<le> n * c" using row_block_bound [OF assms(3), of c c] by simp
  then show ?thesis using assms by (simp add: row_def)
qed

lemma row_sos_col:
  assumes "i < n"
  shows "row (scale (ones [n, 1]) k) i = [k]"
proof -
  have "drop i (replicate n k) = replicate (n - i) k" by simp
  moreover have "n - i = Suc (n - i - 1)" using assms by simp
  ultimately have "take 1 (drop i (replicate n k)) = [k]"
    by (metis One_nat_def replicate_Suc take_Suc_Cons take_0)
  then show ?thesis by (simp add: row_def scale_def ones_def)
qed

lemma bit_length_bound: "n < 2 ^ k \<Longrightarrow> bit_length n \<le> k"
proof (induction k arbitrary: n)
  case 0
  then have "n \<le> 0" by simp
  then show ?case by (simp add: bit_length.simps)
next
  case (Suc k)
  show ?case
  proof (cases "n \<le> 0")
    case True
    then show ?thesis by (simp add: bit_length.simps)
  next
    case False
    from Suc.prems have "n div 2 < 2 ^ k" by simp
    from Suc.IH [OF this] False show ?thesis by (subst bit_length.simps) simp
  qed
qed

lemma round_half_even_exact: "2 ^ s dvd n \<Longrightarrow> round_half_even n s = n"
  by (auto simp: round_half_even_def Let_def mod_eq_0_iff_dvd)

lemma to_float64_exact:
  assumes "\<bar>k\<bar> \<le> 2 ^ 53"
  shows "to_float64 k = Inr k"
proof -
  define n where "n = \<bar>k\<bar>"
  have le: "n \<le> 2 ^ 53" using assms by (simp add: n_def)
  have m: "round_half_even n (bit_length n - 53) = n"
  proof (cases "n = 2 ^ 53")
    case True
    have "bit_length (2 ^ 53) = 54" by code_simp
    then show ?thesis by (simp add: True round_half_even_exact)
  next
    case False
    with le have "n < 2 ^ 53" by simp
    then have "bit_length n - 53 = 0" using bit_length_bound [of n 53] by simp
    then show ?thesis by (simp add: round_half_even_exact)
  qed
  have "(2::int) ^ 53 < 2 ^ 1024" by (rule power_strict_increasing) simp_all
  with le have small: "\<not> 2 ^ 1024 \<le> n" by simp
  have "sgn k * n = k" by (simp add: n_def mult_sgn_abs)
  with m small show ?thesis
    unfolding to_float64_def n_def [symmetric] by (simp add: Let_def)
qed

lemma add_sos_rows:
  assumes sh: "shape t = [latest_batch_size self, c]"
      and le: "length (elems t) = latest_batch_size self * c"
      and go: "add_sos self t = Inr go"
      and i: "i < latest_batch_size self"
  shows "shape go = [latest_batch_size self, 1 + (c - 1)]"
    and "\<exists>sos. to_float64 (sos_id (alphabet self)) = Inr sos \<and>
               row go i = sos # butlast (row t i)"
proof -
  from go obtain sos where fl: "to_float64 (sos_id (alphabet self)) = Inr sos"
    by (auto simp: add_sos_def and_then_def split: sum.splits)
  let ?n = "latest_batch_size self"
  let ?sos = "scale (ones [?n, 1]) sos"
  let ?body = "of_rows ?n (c - 1) (map butlast (rows t))"
  let ?rs = "map2 (@) (rows ?sos) (rows ?body)"
  have body: "drop_last_column t = Inr ?body" by (simp add: drop_last_column_def sh)
  have go_eq: "go = of_rows ?n (1 + (c - 1)) ?rs"
    using go
    by (simp add: add_sos_def and_then_def fl body concatenate_axis1_def scale_def ones_def
                  of_rows_def)
  show "shape go = [?n, 1 + (c - 1)]" by (simp add: go_eq of_rows_def)
  have rows_t: "rows t = map (row t) [0..<?n]" by (simp add: rows_def sh)
  have len_t: "length (row t j) = c" if "j < ?n" for j
    by (rule row_length [OF sh le that])
  have body_rows: "\<forall>r \<in> set (map butlast (rows t)). length r = c - 1"
    using len_t by (auto simp: rows_t)
  have body_row: "row ?body j = butlast (row t j)" if "j < ?n" for j
    using row_of_rows [OF body_rows, of j ?n] that by (simp add: rows_t)
  have rows_body: "rows ?body = map (\<lambda>j. butlast (row t j)) [0..<?n]"
    using body_row by (simp add: rows_def of_rows_def)
  have rows_sos: "rows ?sos = map (\<lambda>j. [sos]) [0..<?n]"
    using row_sos_col by (simp add: rows_def scale_def ones_def)
  have rs: "?rs = map (\<lambda>j. sos # butlast (row t j)) [0..<?n]"
    unfolding rows_body rows_sos by (simp add: zip_map_map zip_same_conv_map)
  have all: "\<forall>r \<in> set ?rs. length r = 1 + (c - 1)"
    unfolding rs using len_t by auto
  have len_rs: "i < length ?rs" unfolding rs using i by simp
  have "row go i = ?rs ! i"
    unfolding go_eq by (rule row_of_rows [OF all len_rs])
  also have "\<dots> = sos # butlast (row t i)"
    unfolding rs using i by simp
  finally have "row go i = sos # butlast (row t i)" .
  with fl show "\<exists>sos. to_float64 (sos_id (alphabet self)) = Inr sos \<and>
               row go i = sos # butlast (row t i)" by blast
qed

lemma make_array_any_shape:
  assumes "make_array self sequences f max_len = Inr a"
  shows "\<exists>c. shape a = [latest_batch_size self, c] \<and> length (elems a) = latest_batch_size self * c"
proof (cases "use_dynamic_array_sizes self \<or> max_len = None \<or> max_len = Some 0")
  case True
  from make_array_longest [OF True assms] show ?thesis
    by (auto simp: well_formed2_def)
next
  case False
  then obtain m where "max_len = Some m" "m \<noteq> 0" "\<not> use_dynamic_array_sizes self" by auto
  from make_array_fixed(2,3) [OF this(3,1,2) assms] show ?thesis
    by (auto simp: well_formed2_def)
qed

text \<open>
  Claim C4 (as amended). In every batch that \<open>_make_batch\<close> produces, for every sample
  row \<open>i\<close> the shifted target row starts with \<open>sos_id\<close> as converted to \<open>float64\<close>,
  which is \<open>sos_id\<close> itself whenever \<open>abs(sos_id) <= 2 ** 53\<close>, and continues with the
  encoded target row without its last entry:
  \<open>t_encoded_go[i,1:] == t_encoded[i,:-1]\<close>.
\<close>

theorem add_sos_shift:
  assumes "make_batch self = Inr batch"
  shows "\<exists>t go. map_of batch ''t_encoded'' = Some t \<and> map_of batch ''t_encoded_go'' = Some go \<and>
           (\<forall>i < latest_batch_size self.
              row go i \<noteq> [] \<and>
              to_float64 (sos_id (alphabet self)) = Inr (hd (row go i)) \<and>
              (\<bar>sos_id (alphabet self)\<bar> \<le> 2 ^ 53 \<longrightarrow> hd (row go i) = sos_id (alphabet self)) \<and>
              tl (row go i) = butlast (row t i))"
proof -
  from assms obtain x_encoded t_encoded t_encoded_go x_spaces t_mask where
    t: "make_array self (map snd (batch_samples self)) (encode (alphabet self))
          (Some (gen_seq_len self)) = Inr t_encoded"
    and go: "add_sos self t_encoded = Inr t_encoded_go"
    and batch: "batch = plain_batch self x_encoded t_encoded t_encoded_go x_spaces t_mask"
    by (rule make_batch_parts)
  from make_array_any_shape [OF t] obtain c where
    sh: "shape t_encoded = [latest_batch_size self, c]"
    and le: "length (elems t_encoded) = latest_batch_size self * c" by blast
  have fields: "map_of batch ''t_encoded'' = Some t_encoded"
               "map_of batch ''t_encoded_go'' = Some t_encoded_go"
    by (simp_all add: batch plain_batch_def)
  have "row t_encoded_go i \<noteq> [] \<and>
        to_float64 (sos_id (alphabet self)) = Inr (hd (row t_encoded_go i)) \<and>
        (\<bar>sos_id (alphabet self)\<bar> \<le> 2 ^ 53 \<longrightarrow>
           hd (row t_encoded_go i) = sos_id (alphabet self)) \<and>
        tl (row t_encoded_go i) = butlast (row t_encoded i)"
    if "i < latest_batch_size self" for i
  proof -
    from add_sos_rows(2) [OF sh le go that] obtain sos where
      fl: "to_float64 (sos_id (alphabet self)) = Inr sos"
      and r: "row t_encoded_go i = sos # butlast (row t_encoded i)" by blast
    show ?thesis using fl r to_float64_exact [of "sos_id (alphabet self)"] by auto
  qed
  with fields show ?thesis by blast
qed

lemma make_batch_example: "make_batch example_generator = Inr example_batch"
  by code_simp

theorem add_sos_shift_witness:
  "make_batch example_generator = Inr example_batch \<and>
   (\<exists>t go. map_of example_batch ''t_encoded'' = Some t \<and>
            map_of example_batch ''t_encoded_go'' = Some go \<and>
            hd (row go 1) = 2 \<and> tl (row go 1) = butlast (row t 1))"
proof -
  have h: "make_batch example_generator = Inr example_batch" by (rule make_batch_example)
  have n: "1 < latest_batch_size example_generator"
          "sos_id (alphabet example_generator) = 2"
    by (simp_all add: example_generator_def example_alphabet_def)
  from add_sos_shift [OF h] n show ?thesis using h by auto
qed

text \<open>
  The claim as stated fails: the column is a \<open>float64\<close> array, and \<open>2 ** 53 + 1\<close> is not
  a \<open>float64\<close> value. With \<open>sos_id = 9007199254740993\<close> every row of \<open>t_encoded_go\<close>
  starts with 9007199254740992.
\<close>

theorem add_sos_shift_counterexample:
  "make_batch big_sos_generator = Inr big_sos_batch \<and>
   map_of big_sos_batch ''t_encoded_go''
     = Some (NDArray [2, 3] [9007199254740992, 115, 97, 9007199254740992, 111, 117]) \<and>
   sos_id (alphabet big_sos_generator) = 9007199254740993"
  by code_simp

lemma feature_flag_irrelevant:
  "make_array (self\<lparr>add_feature_dim := b\<rparr>) = make_array self"
  "add_sos (self\<lparr>add_feature_dim := b\<rparr>) = add_sos self"
  "spaces (self\<lparr>add_feature_dim := b\<rparr>) = spaces self"
  "mask_seq (self\<lparr>add_feature_dim := b\<rparr>) = mask_seq self"
  by (intro ext, simp add: make_array_def add_sos_def spaces_def mask_seq_def)+

lemma make_batch_feature_dim:
  "make_batch (self\<lparr>add_feature_dim := True\<rparr>) =
     (case make_batch (self\<lparr>add_feature_dim := False\<rparr>) of
        Inl e \<Rightarrow> Inl e
      | Inr batch \<Rightarrow> Inl AttributeError)"
  by (auto simp: make_batch_def feature_flag_irrelevant and_then_def Let_def
                 add_feature_dims_def iteritems_def
           split: sum.splits)

text \<open>
  Claim C8. With \<open>add_feature_dim\<close> set, \<open>_make_batch\<close> should return the batch with a
  trailing axis of size 1 on every array. The code does not: once the arrays are built it
  evaluates \<open>batch.iteritems()\<close>, which raises \<open>AttributeError\<close>, so no batch is
  returned. For the example batch, which is built without error when the flag is off:
\<close>

theorem add_feature_dim_raises:
  "make_batch (example_generator\<lparr>add_feature_dim := True\<rparr>) = Inl AttributeError"
  by code_simp

lemma batch_array_widths:
  assumes made: "make_batch self = Inr batch"
  obtains x_encoded t_encoded t_encoded_go x_spaces t_mask where
    "make_array self (map fst (batch_samples self)) (encode (alphabet self))
       (Some (gen_seq_len self)) = Inr x_encoded"
    "make_array self (map snd (batch_samples self)) (encode (alphabet self))
       (Some (gen_seq_len self)) = Inr t_encoded"
    "make_array self (map fst (batch_samples self)) (spaces self)
       (Some (gen_seq_len self div 4)) = Inr x_spaces"
    "make_array self (map snd (batch_samples self)) (mask_seq self)
       (Some (gen_seq_len self)) = Inr t_mask"
    "\<exists>a. map_of batch ''x_encoded'' = Some a \<and> shape a ! 1 = shape x_encoded ! 1"
    "\<exists>a. map_of batch ''t_encoded'' = Some a \<and> shape a ! 1 = shape t_encoded ! 1"
    "\<exists>a. map_of batch ''x_spaces'' = Some a \<and> shape a ! 1 = shape x_spaces ! 1"
    "\<exists>a. map_of batch ''t_mask'' = Some a \<and> shape a ! 1 = shape t_mask ! 1"
proof -
  from made obtain x_encoded t_encoded t_encoded_go x_spaces t_mask where
    parts:
    "make_array self (map fst (batch_samples self)) (encode (alphabet self))
       (Some (gen_seq_len self)) = Inr x_encoded"
    "make_array self (map snd (batch_samples self)) (encode (alphabet self))
       (Some (gen_seq_len self)) = Inr t_encoded"
    "make_array self (map fst (batch_samples self)) (spaces self)
       (Some (gen_seq_len self div 4)) = Inr x_spaces"
    "make_array self (map snd (batch_samples self)) (mask_seq self)
       (Some (gen_seq_len self)) = Inr t_mask"
    and batch: "batch = plain_batch self x_encoded t_encoded t_encoded_go x_spaces t_mask"
    by (rule make_batch_parts)
  show ?thesis
    by (rule that [OF parts]) (simp_all add: batch plain_batch_def)
qed

text \<open>
  Claim C6 (as amended). With \<open>use_dynamic_array_sizes\<close> set, every array that
  \<open>_make_array\<close> produces has its second axis sized to the length of the longest raw
  sequence of the batch, the input before the per-field function is applied, whatever
  \<open>max_len\<close> is; it produces one whenever the batch is not empty and has at most
  \<open>latest_batch_size\<close> sequences. So in a batch the source arrays are as wide as the
  longest source sentence and the target arrays as wide as the longest target sentence.
\<close>

theorem dynamic_array_width:
  assumes dyn: "use_dynamic_array_sizes self"
  shows "(\<forall>a. make_array self sequences f max_len = Inr a \<longrightarrow>
            shape a = [latest_batch_size self, Max (set (map length sequences))]) \<and>
         (sequences \<noteq> [] \<and> length sequences \<le> latest_batch_size self \<longrightarrow>
            (\<exists>a. make_array self sequences f max_len = Inr a)) \<and>
         (\<forall>batch. make_batch self = Inr batch \<longrightarrow>
            (\<exists>a. map_of batch ''x_encoded'' = Some a \<and>
                 shape a ! 1 = Max (set (map length (map fst (batch_samples self))))) \<and>
            (\<exists>a. map_of batch ''x_spaces'' = Some a \<and>
                 shape a ! 1 = Max (set (map length (map fst (batch_samples self))))) \<and>
            (\<exists>a. map_of batch ''t_encoded'' = Some a \<and>
                 shape a ! 1 = Max (set (map length (map snd (batch_samples self))))) \<and>
            (\<exists>a. map_of batch ''t_mask'' = Some a \<and>
                 shape a ! 1 = Max (set (map length (map snd (batch_samples self))))))"
proof (intro conjI allI impI)
  fix a assume "make_array self sequences f max_len = Inr a"
  then show "shape a = [latest_batch_size self, Max (set (map length sequences))]"
    using dyn by (intro make_array_longest(1)) simp_all
next
  assume "sequences \<noteq> [] \<and> length sequences \<le> latest_batch_size self"
  then show "\<exists>a. make_array self sequences f max_len = Inr a"
    using dyn by (intro make_array_succeeds) simp_all
next
  fix batch assume made: "make_batch self = Inr batch"
  from made obtain x_encoded t_encoded t_encoded_go x_spaces t_mask where
    parts:
    "make_array self (map fst (batch_samples self)) (encode (alphabet self))
       (Some (gen_seq_len self)) = Inr x_encoded"
    "make_array self (map snd (batch_samples self)) (encode (alphabet self))
       (Some (gen_seq_len self)) = Inr t_encoded"
    "make_array self (map fst (batch_samples self)) (spaces self)
       (Some (gen_seq_len self div 4)) = Inr x_spaces"
    "make_array self (map snd (batch_samples self)) (mask_seq self)
       (Some (gen_seq_len self)) = Inr t_mask"
    and fields:
    "\<exists>a. map_of batch ''x_encoded'' = Some a \<and> shape a ! 1 = shape x_encoded ! 1"
    "\<exists>a. map_of batch ''t_encoded'' = Some a \<and> shape a ! 1 = shape t_encoded ! 1"
    "\<exists>a. map_of batch ''x_spaces'' = Some a \<and> shape a ! 1 = shape x_spaces ! 1"
    "\<exists>a. map_of batch ''t_mask'' = Some a \<and> shape a ! 1 = shape t_mask ! 1"
    by (rule batch_array_widths)
  have d: "use_dynamic_array_sizes self \<or> m = None \<or> m = Some 0" for m :: "int option"
    using dyn by simp
  show "\<exists>a. map_of batch ''x_encoded'' = Some a \<and>
                 shape a ! 1 = Max (set (map length (map fst (batch_samples self))))"
    using fields(1) make_array_longest(1) [OF d parts(1)] by simp
  show "\<exists>a. map_of batch ''x_spaces'' = Some a \<and>
                 shape a ! 1 = Max (set (map length (map fst (batch_samples self))))"
    using fields(3) make_array_longest(1) [OF d parts(3)] by simp
  show "\<exists>a. map_of batch ''t_encoded'' = Some a \<and>
                 shape a ! 1 = Max (set (map length (map snd (batch_samples self))))"
    using fields(2) make_array_longest(1) [OF d parts(2)] by simp
  show "\<exists>a. map_of batch ''t_mask'' = Some a \<and>
                 shape a ! 1 = Max (set (map length (map snd (batch_samples self))))"
    using fields(4) make_array_longest(1) [OF d parts(4)] by simp
qed

text \<open>
  Claim C10. When \<open>max_len\<close> is omitted or 0, every array \<open>_make_array\<close> produces has its
  second axis sized to the length of the longest raw input sequence, also when
  \<open>use_dynamic_array_sizes\<close> is false, and it produces one whenever the batch is not
  empty and has at most \<open>latest_batch_size\<close> sequences. In particular, whenever
  \<open>seq_len < 4\<close> and \<open>_make_batch\<close> produces a batch, its \<open>x_spaces\<close> array is as wide
  as the longest source sentence.
\<close>

theorem default_max_len_width:
  "((max_len = None \<or> max_len = Some 0) \<longrightarrow>
      (\<forall>a. make_array self sequences f max_len = Inr a \<longrightarrow>
          shape a = [latest_batch_size self, Max (set (map length sequences))]) \<and>
      (sequences \<noteq> [] \<and> length sequences \<le> latest_batch_size self \<longrightarrow>
          (\<exists>a. make_array self sequences f max_len = Inr a))) \<and>
   (gen_seq_len self < 4 \<longrightarrow>
      (\<forall>batch. make_batch self = Inr batch \<longrightarrow>
          (\<exists>a. map_of batch ''x_spaces'' = Some a \<and>
               shape a ! 1 = Max (set (map length (map fst (batch_samples self)))))))"
proof (intro conjI allI impI)
  fix a assume "max_len = None \<or> max_len = Some 0" "make_array self sequences f max_len = Inr a"
  then show "shape a = [latest_batch_size self, Max (set (map length sequences))]"
    by (intro make_array_longest(1)) simp_all
next
  assume "max_len = None \<or> max_len = Some 0"
         "sequences \<noteq> [] \<and> length sequences \<le> latest_batch_size self"
  then show "\<exists>a. make_array self sequences f max_len = Inr a"
    by (intro make_array_succeeds) simp_all
next
  fix batch assume small: "gen_seq_len self < 4" and made: "make_batch self = Inr batch"
  from made obtain x_encoded t_encoded t_encoded_go x_spaces t_mask where
    xe: "make_array self (map fst (batch_samples self)) (encode (alphabet self))
       (Some (gen_seq_len self)) = Inr x_encoded"
    and xs: "make_array self (map fst (batch_samples self)) (spaces self)
       (Some (gen_seq_len self div 4)) = Inr x_spaces"
    and field: "\<exists>a. map_of batch ''x_spaces'' = Some a \<and> shape a ! 1 = shape x_spaces ! 1"
    by (rule batch_array_widths)
  have "use_dynamic_array_sizes self \<or> Some (gen_seq_len self div 4) = None
          \<or> Some (gen_seq_len self div 4) = Some 0"
  proof (cases "use_dynamic_array_sizes self")
    case True
    then show ?thesis by simp
  next
    case False
    have "0 \<le> gen_seq_len self"
    proof (cases "gen_seq_len self = 0")
      case True
      then show ?thesis by simp
    next
      case nz: False
      from make_array_fixed(1) [OF False refl nz xe] show ?thesis by simp
    qed
    with small have "gen_seq_len self div 4 = 0" by simp
    then show ?thesis by simp
  qed
  from make_array_longest(1) [OF this xs] field
  show "\<exists>a. map_of batch ''x_spaces'' = Some a \<and>
               shape a ! 1 = Max (set (map length (map fst (batch_samples self))))"
    by simp
qed

theorem dynamic_array_width_witness:
  "use_dynamic_array_sizes dynamic_generator \<and>
   (\<exists>a. make_array dynamic_generator [str_of ''salut'', str_of ''oui'']
          (mask_seq dynamic_generator) (Some 10) = Inr a \<and> shape a = [2, 5])"
proof -
  have h: "use_dynamic_array_sizes dynamic_generator"
    by (simp add: dynamic_generator_def example_generator_def)
  have n: "latest_batch_size dynamic_generator = 2"
    by (simp add: dynamic_generator_def example_generator_def)
  have m: "Max (set (map length [str_of ''salut'', str_of ''oui''])) = 5"
    by (simp add: str_of_def)
  from dynamic_array_width [OF h, of "[str_of ''salut'', str_of ''oui'']"
         "mask_seq dynamic_generator" "Some 10"]
  show ?thesis unfolding n m using h by auto
qed

text \<open>
  The claim as stated fails: with end-of-sequence marking the mask of \<open>"salut"\<close> has six
  entries, the longest post-processing sequence of the batch, but the dynamically sized
  mask array has five columns, the length of \<open>"salut"\<close> itself.
\<close>

theorem dynamic_array_width_counterexample:
  "make_array dynamic_generator (map snd (batch_samples dynamic_generator))
      (mask_seq dynamic_generator) (Some (gen_seq_len dynamic_generator))
     = Inr (NDArray [2, 5] [1, 1, 1, 1, 1, 1, 1, 1, 1, 0]) \<and>
   map length (map (mask_seq dynamic_generator) (map snd (batch_samples dynamic_generator)))
     = [6, 4]"
  by code_simp

theorem default_max_len_width_witness:
  "(\<exists>a. make_array short_generator [str_of ''hi there'', str_of ''yes'']
          (spaces short_generator) (Some 0) = Inr a \<and> shape a = [2, 8]) \<and>
   gen_seq_len short_generator < 4 \<and> \<not> use_dynamic_array_sizes short_generator \<and>
   make_batch short_generator = Inr short_batch \<and>
   (\<exists>a. map_of short_batch ''x_spaces'' = Some a \<and> shape a ! 1 = 8)"
proof -
  have n: "latest_batch_size short_generator = 2" "gen_seq_len short_generator < 4"
          "\<not> use_dynamic_array_sizes short_generator"
          "map fst (batch_samples short_generator) = [str_of ''hi there'', str_of ''yes'']"
    by (simp_all add: short_generator_def example_generator_def)
  have m: "Max (set (map length [str_of ''hi there'', str_of ''yes''])) = 8"
    by (simp add: str_of_def)
  have b: "make_batch short_generator = Inr short_batch" by code_simp
  from default_max_len_width [of "Some 0" short_generator
         "[str_of ''hi there'', str_of ''yes'']" "spaces short_generator"]
  show ?thesis unfolding n m using n(2,3) b by auto
qed

subsection \<open>Schedules\<close>

lemma shuffle_from_mset:
  assumes "i < length xs \<or> i = 0"
  shows "mset (shuffle_from draw k i xs) = mset xs"
  using assms
proof (induction i arbitrary: k xs)
  case 0
  then show ?case by simp
next
  case (Suc i)
  let ?j = "draw k mod Suc (Suc i)"
  let ?ys = "xs[Suc i := xs ! ?j, ?j := xs ! Suc i]"
  from Suc.prems have i: "Suc i < length xs" by simp
  have "?j < Suc (Suc i)" by (rule mod_less_divisor) simp
  then have "?j \<le> Suc i" by (simp only: less_Suc_eq_le)
  then have j: "?j < length xs" using i by (rule le_less_trans)
  have "mset (shuffle_from draw (Suc k) i ?ys) = mset ?ys"
    by (rule Suc.IH) (use i in simp)
  also have "\<dots> = mset xs" by (rule mset_swap [OF j i])
  finally show ?case by (simp add: Let_def)
qed

lemma np_shuffle_mset: "mset (np_shuffle draw k xs) = mset xs"
  unfolding np_shuffle_def by (rule shuffle_from_mset) (cases xs, simp_all)

lemma np_shuffle_length: "length (np_shuffle draw k xs) = length xs"
  using np_shuffle_mset [of draw k xs] by (metis size_mset)

text \<open>The slices of the index array: consecutive blocks that cover it.\<close>

lemma blocks_concat:
  "concat (map (\<lambda>b. drop (b * c) (take ((b + 1) * c) xs)) [0..<k]) = take (k * c) xs"
proof (induction k)
  case 0
  then show ?case by simp
next
  case (Suc k)
  have "take (k * c) xs @ drop (k * c) (take (k * c + c) xs) = take (k * c + c) xs"
    using append_take_drop_id [of "k * c" "take (k * c + c) xs"] by (simp add: min_def)
  with Suc show ?case by (simp add: add.commute)
qed

lemma ceil_div_bounds:
  fixes n c :: nat
  assumes "0 < c"
  shows "n \<le> ((n + c - 1) div c) * c" and "0 < n \<Longrightarrow> ((n + c - 1) div c - 1) * c < n"
    and "0 < n \<Longrightarrow> 0 < (n + c - 1) div c"
proof -
  let ?k = "(n + c - 1) div c"
  have eq: "?k * c + (n + c - 1) mod c = n + c - 1" by simp
  have lt: "(n + c - 1) mod c < c" using assms by simp
  from eq lt show "n \<le> ?k * c" by linarith
  show pos: "0 < ?k" if "0 < n"
  proof -
    have "c \<le> n + c - 1" using that by simp
    then show ?thesis using assms by (simp add: div_greater_zero_iff)
  qed
  show "(?k - 1) * c < n" if "0 < n"
  proof -
    from pos [OF that] have "(?k - 1) * c + c = ?k * c"
      by (metis Suc_diff_1 add.commute mult_Suc)
    with eq show ?thesis using assms that by linarith
  qed
qed

lemma yield_batch_block:
  assumes "length (sample_indices st) = num_samples st"
  shows "yield_batch st b =
           map fst (drop (b * batch_size st) (take ((b + 1) * batch_size st) (sample_indices st)))"
proof -
  have "take (min m (num_samples st)) (sample_indices st) = take m (sample_indices st)" for m
    using assms by (simp add: min_def)
  then show ?thesis by (simp add: yield_batch_def get_start_end_indices_def)
qed

lemma yield_batch_pending [simp]: "yield_batch (st\<lparr>pending := p\<rparr>) = yield_batch st"
  by (rule ext) (simp add: yield_batch_def)

lemma schedule_inv_pending [simp]: "schedule_inv (st\<lparr>pending := p\<rparr>) = schedule_inv st"
  by (simp add: schedule_inv_def)

lemma begin_epoch_inv:
  assumes "schedule_inv st"
  shows "\<exists>st'. begin_epoch draw st = Inr st' \<and> schedule_inv st' \<and> args st' = args st \<and>
           batch_size st' = batch_size st \<and> num_samples st' = num_samples st \<and>
           pending st' = batch_numbers st' \<and>
           (\<not> shuffle (args st) \<longrightarrow>
              batch_numbers st' = batch_numbers st \<and> sample_indices st' = sample_indices st)"
proof (cases "shuffle (args st)")
  case False
  then show ?thesis using assms by (simp add: begin_epoch_def)
next
  case True
  from assms have ne: "sample_indices st \<noteq> []" by (auto simp: schedule_inv_def)
  let ?sorted = "sort_key snd (np_shuffle draw (cursor st) (sample_indices st))"
  have m: "mset ?sorted = mset (sample_indices st)" by (simp add: np_shuffle_mset)
  then have "mset (map fst ?sorted) = mset (map fst (sample_indices st))"
    by (metis mset_map)
  moreover have "length ?sorted = length (sample_indices st)" by (simp add: np_shuffle_length)
  ultimately show ?thesis using assms True ne
    by (simp add: begin_epoch_def Let_def schedule_inv_def np_shuffle_mset)
qed

lemma run_pending:
  "run (bucket_next draw) (length (pending st)) (Running st)
     = Some (map (yield_batch st) (pending st), Suspended (Running (st\<lparr>pending := []\<rparr>)))"
proof (induction "pending st" arbitrary: st)
  case Nil
  then have "st\<lparr>pending := []\<rparr> = st" by simp
  with Nil show ?case by (metis list.size(3) list.simps(8) run.simps(1))
next
  case (Cons b rest)
  let ?st = "st\<lparr>pending := rest\<rparr>"
  have step: "bucket_next draw (Running st) = Some (Yield (yield_batch st b), Running ?st)"
    using Cons.hyps(2) [symmetric] by (simp add: bucket_next_def)
  have "rest = pending ?st" by simp
  from Cons.hyps(1) [OF this]
  have "run (bucket_next draw) (length rest) (Running ?st)
          = Some (map (yield_batch st) rest, Suspended (Running (st\<lparr>pending := []\<rparr>)))"
    by simp
  with step show ?case using Cons.hyps(2) [symmetric] by simp
qed


lemma run_add:
  "run nxt (a + b) s =
     (case run nxt a s of
        None \<Rightarrow> None
      | Some (xs, Suspended s') \<Rightarrow>
          (case run nxt b s' of None \<Rightarrow> None | Some (ys, e) \<Rightarrow> Some (xs @ ys, e))
      | Some (xs, Exhausted) \<Rightarrow> Some (xs, Exhausted)
      | Some (xs, Failed err) \<Rightarrow> Some (xs, Failed err))"
proof (induction a arbitrary: s)
  case 0
  then show ?case by (simp split: option.splits)
next
  case (Suc a)
  show ?case
  proof (cases "nxt s")
    case None
    then show ?thesis by simp
  next
    case (Some r)
    obtain st s1 where r: "r = (st, s1)" by (cases r)
    show ?thesis
    proof (cases st)
      case (Yield x)
      with Some r Suc [of s1] show ?thesis
        by (simp split: option.splits prod.splits ending.splits)
    next
      case Stop
      with Some r show ?thesis by simp
    next
      case (Raise e)
      with Some r show ?thesis by simp
    qed
  qed
qed

lemma mset_concat_map_cong:
  assumes "mset xs = mset ys"
  shows "mset (concat (map f xs)) = mset (concat (map f ys))"
proof -
  have "mset (concat (map f zs)) = sum_mset (image_mset (\<lambda>z. mset (f z)) (mset zs))" for zs
    by (induction zs) simp_all
  then show ?thesis using assms by simp
qed

lemma epoch_batches:
  assumes inv: "schedule_inv st"
  defines "k \<equiv> (num_samples st + batch_size st - 1) div batch_size st"
  defines "batches \<equiv> map (yield_batch st) (batch_numbers st)"
  shows "length batches = k"
    and "0 < k"
    and "\<forall>b \<in> set batches. length b \<le> batch_size st"
    and "\<forall>p < k. \<forall>q < k. p \<noteq> q \<longrightarrow>
           length (batches ! p) = batch_size st \<or> length (batches ! q) = batch_size st"
    and "\<not> shuffle (args st) \<longrightarrow> (\<forall>p. Suc p < k \<longrightarrow> length (batches ! p) = batch_size st)"
    and "mset (concat batches) = mset [0..<num_samples st]"
    and "\<not> shuffle (args st) \<longrightarrow> concat batches = map fst (sample_indices st)"
proof -
  let ?c = "batch_size st" and ?n = "num_samples st" and ?xs = "sample_indices st"
  let ?bn = "batch_numbers st"
  from inv have c: "0 < ?c" and n: "0 < ?n" and len: "length ?xs = ?n"
    and ids: "mset (map fst ?xs) = mset [0..<?n]"
    and perm: "mset ?bn = mset [0..<k]"
    and plain: "\<not> shuffle (args st) \<Longrightarrow> ?bn = [0..<k]"
    by (simp_all add: schedule_inv_def k_def)
  have cover: "?n \<le> k * ?c" and last: "(k - 1) * ?c < ?n" and "0 < k"
    unfolding k_def using ceil_div_bounds [OF c, of ?n] n by simp_all
  show "0 < k" by fact
  have len_bn: "length ?bn = k" using mset_eq_length [OF perm] by simp
  show "length batches = k" by (simp add: batches_def len_bn)
  have dist: "distinct ?bn"
    using mset_eq_imp_distinct_iff [OF perm] by simp
  have set_bn: "set ?bn = {0..<k}" using mset_eq_setD [OF perm] by simp
  have len_block: "length (yield_batch st b) = min ((b + 1) * ?c) ?n - b * ?c" for b
    by (simp add: yield_batch_block [OF len] len)
  have le: "length (yield_batch st b) \<le> ?c" for b
    unfolding len_block by simp
  show "\<forall>b \<in> set batches. length b \<le> ?c" using le by (auto simp: batches_def)
  have full: "length (yield_batch st b) = ?c" if "Suc b < k" for b
  proof -
    from that have "Suc b \<le> k - 1" by simp
    then have "Suc b * ?c \<le> (k - 1) * ?c" by (rule mult_le_mono1)
    with last have "(b + 1) * ?c \<le> ?n" by simp
    then show ?thesis unfolding len_block by (simp add: min_def)
  qed
  show "\<forall>p < k. \<forall>q < k. p \<noteq> q \<longrightarrow>
           length (batches ! p) = ?c \<or> length (batches ! q) = ?c"
  proof (intro allI impI)
    fix p q assume p: "p < k" and q: "q < k" and ne: "p \<noteq> q"
    from p q have "?bn ! p \<in> set ?bn" "?bn ! q \<in> set ?bn" by (simp_all add: len_bn)
    then have b: "?bn ! p < k" "?bn ! q < k" by (simp_all add: set_bn)
    from dist p q ne have "?bn ! p \<noteq> ?bn ! q" by (simp add: nth_eq_iff_index_eq len_bn)
    with b have "Suc (?bn ! p) < k \<or> Suc (?bn ! q) < k" by linarith
    then show "length (batches ! p) = ?c \<or> length (batches ! q) = ?c"
      using full p q by (auto simp: batches_def len_bn)
  qed
  show "\<not> shuffle (args st) \<longrightarrow> (\<forall>p. Suc p < k \<longrightarrow> length (batches ! p) = ?c)"
  proof (intro allI impI)
    fix p assume "\<not> shuffle (args st)" and p: "Suc p < k"
    then have "?bn = [0..<k]" by (simp add: plain)
    then have "batches ! p = yield_batch st p" using p by (simp add: batches_def)
    then show "length (batches ! p) = ?c" using full [OF p] by simp
  qed
  have "concat (map (yield_batch st) [0..<k])
               = map fst (concat (map (\<lambda>b. drop (b * ?c) (take ((b + 1) * ?c) ?xs)) [0..<k]))"
  proof -
    have "yield_batch st = (\<lambda>b. map fst (drop (b * ?c) (take ((b + 1) * ?c) ?xs)))"
      by (rule ext) (rule yield_batch_block [OF len])
    then show ?thesis by (simp add: map_concat o_def)
  qed
  also have "\<dots> = map fst (take (k * ?c) ?xs)" by (simp only: blocks_concat)
  also have "\<dots> = map fst ?xs" using cover len by simp
  finally have all: "concat (map (yield_batch st) [0..<k]) = map fst ?xs" .
  have "mset (concat batches) = mset (concat (map (yield_batch st) [0..<k]))"
    unfolding batches_def by (rule mset_concat_map_cong [OF perm])
  then show "mset (concat batches) = mset [0..<?n]" using ids by (simp only: all)
  show "\<not> shuffle (args st) \<longrightarrow> concat batches = map fst ?xs"
    using plain all by (simp add: batches_def)
qed

lemma epoch_run:
  assumes nxt: "bucket_next draw g = epoch_loop draw st" and inv: "schedule_inv st"
  shows "\<exists>st'. begin_epoch draw st = Inr st' \<and> schedule_inv st' \<and> args st' = args st \<and>
           batch_size st' = batch_size st \<and> num_samples st' = num_samples st \<and>
           run (bucket_next draw) ((num_samples st + batch_size st - 1) div batch_size st) g
             = Some (map (yield_batch st') (batch_numbers st'),
                     Suspended (Running (st'\<lparr>pending := []\<rparr>))) \<and>
           (\<not> shuffle (args st) \<longrightarrow> sample_indices st' = sample_indices st)"
proof -
  let ?k = "(num_samples st + batch_size st - 1) div batch_size st"
  from begin_epoch_inv [OF inv, of draw] obtain st' where
    be: "begin_epoch draw st = Inr st'" and inv': "schedule_inv st'"
    and same: "args st' = args st" "batch_size st' = batch_size st"
              "num_samples st' = num_samples st"
    and pend: "pending st' = batch_numbers st'"
    and keep: "\<not> shuffle (args st) \<longrightarrow> sample_indices st' = sample_indices st"
    by blast
  from epoch_batches(1,2) [OF inv'] same
  have len: "length (batch_numbers st') = ?k" and pos: "0 < ?k" by simp_all
  then obtain b rest where bn: "batch_numbers st' = b # rest"
    by (cases "batch_numbers st'") auto
  let ?mid = "st'\<lparr>pending := rest\<rparr>"
  have first: "bucket_next draw g = Some (Yield (yield_batch st' b), Running ?mid)"
    unfolding nxt by (subst epoch_loop.simps) (simp add: be pend bn)
  have "run (bucket_next draw) (length (pending ?mid)) (Running ?mid)
          = Some (map (yield_batch ?mid) (pending ?mid),
                  Suspended (Running (?mid\<lparr>pending := []\<rparr>)))"
    by (rule run_pending)
  then have rest: "run (bucket_next draw) (length rest) (Running ?mid)
          = Some (map (yield_batch st') rest, Suspended (Running (st'\<lparr>pending := []\<rparr>)))"
    by simp
  have k: "?k = Suc (length rest)" using len bn by simp
  have "run (bucket_next draw) ?k g
          = Some (map (yield_batch st') (batch_numbers st'),
                  Suspended (Running (st'\<lparr>pending := []\<rparr>)))"
    unfolding k by (simp add: first rest bn)
  with be inv' same keep show ?thesis by blast
qed

lemma mset_map_cong:
  assumes "mset xs = mset ys"
  shows "mset (map f xs) = mset (map f ys)"
  using assms by (metis mset_map)

lemma created_boundary:
  assumes n: "1 \<le> length (samples ld)" and c: "1 \<le> bsize" and f: "fuzzyness a \<noteq> 0"
  shows "\<exists>st. bucket_next draw (bucket_schedule ld bsize a) = epoch_loop draw st \<and>
           schedule_inv st \<and> args st = a \<and> batch_size st = bsize \<and>
           num_samples st = length (samples ld) \<and>
           (\<exists>idx. length_index (fuzzyness a) (samples ld) = Inr idx \<and>
                  sample_indices st = (if sort_arg a then sort_key snd idx else idx))"
proof -
  define m where "m = length (samples ld)"
  define idx where
    "idx = map (\<lambda>(i, s). (i, push_bit 14 (int (length (fst s)) div fuzzyness a)
                                   + int (length (snd s)) div fuzzyness a))
               (zip [0..<length (samples ld)] (samples ld))"
  define sorted where "sorted = (if sort_arg a then sort_key snd idx else idx)"
  define st where
    "st = \<lparr>args = a, batch_size = bsize, sample_indices = sorted,
            num_samples = length sorted,
            batch_numbers = [0..<(length sorted + bsize - 1) div bsize], pending = [],
            cursor = 0\<rparr>"
  have li: "length_index (fuzzyness a) (samples ld) = Inr idx"
    unfolding idx_def by (rule length_index_ok [OF f])
  have len_idx: "length idx = m" by (simp add: idx_def m_def)
  have ne: "idx \<noteq> []" using n len_idx m_def by (cases idx) simp_all
  have len: "length sorted = m" by (simp add: sorted_def len_idx)
  have "map fst idx = map fst (zip [0..<length (samples ld)] (samples ld))"
    by (simp add: idx_def case_prod_unfold o_def)
  then have fst_idx: "map fst idx = [0..<m]" by (simp add: m_def)
  have "mset sorted = mset idx" by (simp add: sorted_def)
  then have "mset (map fst sorted) = mset (map fst idx)" by (rule mset_map_cong)
  then have ids: "mset (map fst sorted) = mset [0..<m]" by (simp only: fst_idx)
  have nb: "get_number_of_batches bsize (length sorted)
              = Inr [0..<(length sorted + bsize - 1) div bsize]"
    using c by (simp add: get_number_of_batches_def)
  have "bucket_next draw (Created ld bsize a) =
          (if sort_arg a \<and> idx = [] then Some (Raise IndexError, Finished)
           else (case get_number_of_batches bsize (length sorted) of
                   Inl e \<Rightarrow> Some (Raise e, Finished)
                 | Inr numbers \<Rightarrow>
                     epoch_loop draw
                       \<lparr>args = a, batch_size = bsize, sample_indices = sorted,
                        num_samples = length sorted, batch_numbers = numbers, pending = [],
                        cursor = 0\<rparr>))"
    by (simp only: bucket_next_def bucket_gen.case li sum.case Let_def sorted_def)
  then have nxt: "bucket_next draw (bucket_schedule ld bsize a) = epoch_loop draw st"
    by (simp only: ne nb sum.case st_def bucket_schedule_def simp_thms if_False)
  have pos: "0 < m" "0 < bsize" using n c unfolding m_def by linarith+
  have inv: "schedule_inv st"
    unfolding schedule_inv_def st_def using ids by (simp add: len pos)
  have "args st = a" "batch_size st = bsize" "num_samples st = length (samples ld)"
    by (simp_all add: st_def len m_def)
  moreover have "sample_indices st = (if sort_arg a then sort_key snd idx else idx)"
    by (simp add: st_def sorted_def)
  ultimately show ?thesis using nxt inv li by blast
qed

lemma epochs_run:
  assumes nxt: "bucket_next draw g = epoch_loop draw st" and inv: "schedule_inv st"
      and rep: "e = 0 \<or> repeat (args st)"
  shows "\<exists>before g' st'. run (bucket_next draw)
              (e * ((num_samples st + batch_size st - 1) div batch_size st)) g
            = Some (before, Suspended g') \<and>
           bucket_next draw g' = epoch_loop draw st' \<and> schedule_inv st' \<and>
           args st' = args st \<and> batch_size st' = batch_size st \<and>
           num_samples st' = num_samples st"
  using rep
proof (induction e)
  case 0
  show ?case using nxt inv by (intro exI [of _ "[]"] exI [of _ g] exI [of _ st]) simp
next
  case (Suc e)
  let ?k = "(num_samples st + batch_size st - 1) div batch_size st"
  from Suc.prems have rep: "repeat (args st)" by simp
  with Suc.IH obtain before g1 st1 where
    r1: "run (bucket_next draw) (e * ?k) g = Some (before, Suspended g1)"
    and n1: "bucket_next draw g1 = epoch_loop draw st1" and i1: "schedule_inv st1"
    and s1: "args st1 = args st" "batch_size st1 = batch_size st"
            "num_samples st1 = num_samples st"
    by blast
  from epoch_run [OF n1 i1] s1 obtain st2 where
    i2: "schedule_inv st2" and s2: "args st2 = args st" "batch_size st2 = batch_size st"
            "num_samples st2 = num_samples st"
    and r2: "run (bucket_next draw) ?k g1
               = Some (map (yield_batch st2) (batch_numbers st2),
                       Suspended (Running (st2\<lparr>pending := []\<rparr>)))"
    by auto
  let ?g2 = "Running (st2\<lparr>pending := []\<rparr>)"
  have n2: "bucket_next draw ?g2 = epoch_loop draw (st2\<lparr>pending := []\<rparr>)"
    using rep s2 by (simp add: bucket_next_def)
  have "run (bucket_next draw) (Suc e * ?k) g
          = Some (before @ map (yield_batch st2) (batch_numbers st2), Suspended ?g2)"
    using run_add [of "bucket_next draw" "e * ?k" ?k g] r1 r2 by (simp add: add.commute)
  with n2 i2 s2 show ?case
    by (intro exI [of _ "before @ map (yield_batch st2) (batch_numbers st2)"]
              exI [of _ ?g2] exI [of _ "st2\<lparr>pending := []\<rparr>"]) simp
qed


lemma single_epoch:
  assumes n: "1 \<le> length (samples ld)" and c: "1 \<le> bsize" and f: "fuzzyness a \<noteq> 0"
      and once: "\<not> repeat a"
  shows "\<exists>batches.
           length batches = (length (samples ld) + bsize - 1) div bsize \<and>
           (\<exists>g. run (bucket_next draw) (length batches) (bucket_schedule ld bsize a)
                  = Some (batches, Suspended g)) \<and>
           (\<forall>m. run (bucket_next draw) (length batches + Suc m) (bucket_schedule ld bsize a)
                  = Some (batches, Exhausted)) \<and>
           mset (concat batches) = mset [0..<length (samples ld)] \<and>
           (\<not> shuffle a \<longrightarrow>
              (\<forall>p. Suc p < length batches \<longrightarrow> length (batches ! p) = bsize) \<and>
              (\<exists>idx. length_index (fuzzyness a) (samples ld) = Inr idx \<and>
                     concat batches = map fst (if sort_arg a then sort_key snd idx else idx)))"
proof -
  let ?k = "(length (samples ld) + bsize - 1) div bsize"
  let ?g0 = "bucket_schedule ld bsize a"
  from created_boundary [OF n c f, of draw] obtain st idx where
    nxt: "bucket_next draw ?g0 = epoch_loop draw st" and inv: "schedule_inv st"
    and st: "args st = a" "batch_size st = bsize" "num_samples st = length (samples ld)"
    and li: "length_index (fuzzyness a) (samples ld) = Inr idx"
    and si: "sample_indices st = (if sort_arg a then sort_key snd idx else idx)"
    by blast
  from epoch_run [OF nxt inv] st obtain st' where
    inv': "schedule_inv st'" and st': "args st' = a" "batch_size st' = bsize"
      "num_samples st' = length (samples ld)"
    and r: "run (bucket_next draw) ?k ?g0
              = Some (map (yield_batch st') (batch_numbers st'),
                      Suspended (Running (st'\<lparr>pending := []\<rparr>)))"
    and keep: "\<not> shuffle a \<longrightarrow> sample_indices st' = sample_indices st"
    by auto
  let ?batches = "map (yield_batch st') (batch_numbers st')"
  let ?g1 = "Running (st'\<lparr>pending := []\<rparr>)"
  from epoch_batches(1,5,6,7) [OF inv'] st'
  have len: "length ?batches = ?k"
    and full: "\<not> shuffle a \<longrightarrow> (\<forall>p. Suc p < ?k \<longrightarrow> length (?batches ! p) = bsize)"
    and cover: "mset (concat ?batches) = mset [0..<length (samples ld)]"
    and order: "\<not> shuffle a \<longrightarrow> concat ?batches = map fst (sample_indices st')"
    by simp_all
  have stop: "bucket_next draw ?g1 = Some (Stop, Finished)"
    using once st' by (simp add: bucket_next_def)
  have after: "run (bucket_next draw) (?k + Suc m) ?g0 = Some (?batches, Exhausted)" for m
    using run_add [of "bucket_next draw" ?k "Suc m" ?g0] r stop by simp
  have sorted: "\<exists>idx. length_index (fuzzyness a) (samples ld) = Inr idx \<and>
                  concat ?batches = map fst (if sort_arg a then sort_key snd idx else idx)"
    if "\<not> shuffle a"
    using that order keep li si by (intro exI [of _ idx]) simp
  show ?thesis
  proof (intro exI [of _ ?batches] conjI allI impI)
    show "length ?batches = ?k" by (rule len)
    show "\<exists>g. run (bucket_next draw) (length ?batches) ?g0 = Some (?batches, Suspended g)"
      unfolding len using r by blast
    show "run (bucket_next draw) (length ?batches + Suc m) ?g0 = Some (?batches, Exhausted)" for m
      unfolding len by (rule after)
    show "mset (concat ?batches) = mset [0..<length (samples ld)]" by (rule cover)
    show "length (?batches ! p) = bsize" if "\<not> shuffle a" "Suc p < length ?batches" for p
      using that full unfolding len by blast
    show "\<exists>idx. length_index (fuzzyness a) (samples ld) = Inr idx \<and>
                  concat ?batches = map fst (if sort_arg a then sort_key snd idx else idx)"
      if "\<not> shuffle a" using that by (rule sorted)
  qed
qed

text \<open>
  Claim C2. For a loader with at least one sample, a batch size of at least 1 and a
  nonzero fuzziness, \<open>bucket_schedule\<close> with \<open>repeat=False\<close> yields exactly the batches
  of one epoch, \<open>ceil(num_samples / batch_size)\<close> of them, and the next call of \<open>next()\<close>
  finds the generator exhausted; together the yielded batches hold every index of
  \<open>0, \<dots>, num_samples-1\<close> exactly once. This holds for every value of \<open>shuffle\<close> and
  \<open>sort\<close> and every outcome of the random draws.
\<close>

theorem bucket_schedule_one_epoch:
  assumes "1 \<le> length (samples ld)" and "1 \<le> bsize" and "fuzzyness a \<noteq> 0"
      and "\<not> repeat a"
  shows "\<exists>batches.
           length batches = (length (samples ld) + bsize - 1) div bsize \<and>
           (\<exists>g. run (bucket_next draw) (length batches) (bucket_schedule ld bsize a)
                  = Some (batches, Suspended g)) \<and>
           (\<forall>m. run (bucket_next draw) (length batches + Suc m) (bucket_schedule ld bsize a)
                  = Some (batches, Exhausted)) \<and>
           mset (concat batches) = mset [0..<length (samples ld)]"
  using single_epoch [OF assms, of draw] by blast

theorem bucket_schedule_one_epoch_witness:
  "\<exists>batches. length batches = 2 \<and>
      run (bucket_next zero_draws) 3 (bucket_schedule three_samples 2 default_args)
        = Some (batches, Exhausted) \<and>
      mset (concat batches) = mset [0..<3]"
proof -
  have h: "1 \<le> length (samples three_samples)" "1 \<le> (2::nat)"
          "fuzzyness default_args \<noteq> 0" "\<not> repeat default_args"
    by (simp_all add: three_samples_def default_args_def)
  have k: "(length (samples three_samples) + 2 - 1) div 2 = 2"
          "length (samples three_samples) = 3"
    by (simp_all add: three_samples_def)
  from bucket_schedule_one_epoch [OF h, of zero_draws, unfolded k(1), unfolded k(2)]
  obtain batches where
    len: "length batches = 2"
    and r: "\<forall>m. run (bucket_next zero_draws) (length batches + Suc m)
                  (bucket_schedule three_samples 2 default_args) = Some (batches, Exhausted)"
    and cover: "mset (concat batches) = mset [0..<3]"
    by blast
  from r [rule_format, of 0] len
  have "run (bucket_next zero_draws) 3 (bucket_schedule three_samples 2 default_args)
          = Some (batches, Exhausted)"
    by (simp add: numeral_3_eq_3)
  with len cover show ?thesis by blast
qed

text \<open>
  Claim C3 (as amended). In every epoch of \<open>bucket_schedule\<close> (epoch \<open>e\<close> is the
  \<open>ceil(num_samples / batch_size)\<close> batches that follow the first \<open>e\<close> epochs; there
  is more than one epoch only with \<open>repeat\<close>), every yielded batch has at most
  \<open>batch_size\<close> indices and at most one batch of the epoch has fewer: of any two
  batches of the epoch one is full. With \<open>shuffle=False\<close> every batch but the last one
  yielded is full. With \<open>shuffle=True\<close> the order of the batches is permuted, and the
  short batch can come at any position.
\<close>

theorem bucket_schedule_batch_sizes:
  assumes n: "1 \<le> length (samples ld)" and c: "1 \<le> bsize" and f: "fuzzyness a \<noteq> 0"
      and rep: "e = 0 \<or> repeat a"
  shows "\<exists>before g epoch g'.
           run (bucket_next draw) (e * ((length (samples ld) + bsize - 1) div bsize))
               (bucket_schedule ld bsize a) = Some (before, Suspended g) \<and>
           run (bucket_next draw) ((length (samples ld) + bsize - 1) div bsize) g
             = Some (epoch, Suspended g') \<and>
           length epoch = (length (samples ld) + bsize - 1) div bsize \<and>
           (\<forall>b \<in> set epoch. length b \<le> bsize) \<and>
           (\<forall>p < length epoch. \<forall>q < length epoch. p \<noteq> q \<longrightarrow>
               length (epoch ! p) = bsize \<or> length (epoch ! q) = bsize) \<and>
           (\<not> shuffle a \<longrightarrow> (\<forall>p. Suc p < length epoch \<longrightarrow> length (epoch ! p) = bsize))"
proof -
  let ?k = "(length (samples ld) + bsize - 1) div bsize"
  let ?g0 = "bucket_schedule ld bsize a"
  from created_boundary [OF n c f, of draw] obtain st where
    nxt: "bucket_next draw ?g0 = epoch_loop draw st" and inv: "schedule_inv st"
    and st: "args st = a" "batch_size st = bsize" "num_samples st = length (samples ld)"
    by blast
  from rep st have "e = 0 \<or> repeat (args st)" by simp
  from epochs_run [OF nxt inv this] st obtain before g st1 where
    r1: "run (bucket_next draw) (e * ?k) ?g0 = Some (before, Suspended g)"
    and n1: "bucket_next draw g = epoch_loop draw st1" and i1: "schedule_inv st1"
    and s1: "args st1 = a" "batch_size st1 = bsize" "num_samples st1 = length (samples ld)"
    by auto
  from epoch_run [OF n1 i1] s1 obtain st2 where
    i2: "schedule_inv st2" and s2: "args st2 = a" "batch_size st2 = bsize"
      "num_samples st2 = length (samples ld)"
    and r2: "run (bucket_next draw) ?k g
               = Some (map (yield_batch st2) (batch_numbers st2),
                       Suspended (Running (st2\<lparr>pending := []\<rparr>)))"
    by auto
  let ?epoch = "map (yield_batch st2) (batch_numbers st2)"
  from epoch_batches(1,3,4,5) [OF i2] s2
  have len: "length ?epoch = ?k"
    and le: "\<forall>b \<in> set ?epoch. length b \<le> bsize"
    and one: "\<forall>p < ?k. \<forall>q < ?k. p \<noteq> q \<longrightarrow>
               length (?epoch ! p) = bsize \<or> length (?epoch ! q) = bsize"
    and plain: "\<not> shuffle a \<longrightarrow> (\<forall>p. Suc p < ?k \<longrightarrow> length (?epoch ! p) = bsize)"
    by simp_all
  show ?thesis
  proof (rule exI [of _ before], rule exI [of _ g], rule exI [of _ ?epoch],
         rule exI [of _ "Running (st2\<lparr>pending := []\<rparr>)"], intro conjI)
    show "run (bucket_next draw) (e * ?k) ?g0 = Some (before, Suspended g)" by (rule r1)
    show "run (bucket_next draw) ?k g
            = Some (?epoch, Suspended (Running (st2\<lparr>pending := []\<rparr>)))" by (rule r2)
    show "length ?epoch = ?k" by (rule len)
    show "\<forall>b \<in> set ?epoch. length b \<le> bsize" by (rule le)
    show "\<forall>p < length ?epoch. \<forall>q < length ?epoch. p \<noteq> q \<longrightarrow>
               length (?epoch ! p) = bsize \<or> length (?epoch ! q) = bsize"
      unfolding len by (rule one)
    show "\<not> shuffle a \<longrightarrow> (\<forall>p. Suc p < length ?epoch \<longrightarrow> length (?epoch ! p) = bsize)"
      unfolding len by (rule plain)
  qed
qed

theorem bucket_schedule_batch_sizes_witness:
  "\<exists>before g epoch g'.
      run (bucket_next zero_draws) 2
          (bucket_schedule three_samples 2 (default_args\<lparr>shuffle := True, repeat := True\<rparr>))
        = Some (before, Suspended g) \<and>
      run (bucket_next zero_draws) 2 g = Some (epoch, Suspended g') \<and>
      length epoch = 2 \<and> (length (epoch ! 0) = 2 \<or> length (epoch ! 1) = 2)"
proof -
  let ?a = "default_args\<lparr>shuffle := True, repeat := True\<rparr>"
  have h: "1 \<le> length (samples three_samples)" "1 \<le> (2::nat)"
          "fuzzyness ?a \<noteq> 0" "(1::nat) = 0 \<or> repeat ?a"
    by (simp_all add: three_samples_def default_args_def)
  have k: "(length (samples three_samples) + 2 - 1) div 2 = 2"
    by (simp add: three_samples_def)
  from bucket_schedule_batch_sizes [OF h, of zero_draws] obtain before g epoch g' where
    r1: "run (bucket_next zero_draws) 2 (bucket_schedule three_samples 2 ?a)
           = Some (before, Suspended g)"
    and r2: "run (bucket_next zero_draws) 2 g = Some (epoch, Suspended g')"
    and len: "length epoch = 2"
    and one: "\<forall>p < length epoch. \<forall>q < length epoch. p \<noteq> q \<longrightarrow>
               length (epoch ! p) = 2 \<or> length (epoch ! q) = 2"
    unfolding k by auto
  from one len have "length (epoch ! 0) = 2 \<or> length (epoch ! 1) = 2" by simp
  with r1 r2 len show ?thesis by blast
qed

text \<open>
  The claim as stated fails with \<open>shuffle=True\<close>: for three samples and batches of two,
  when the permutation of the batch numbers puts batch 1 first, the short batch \<open>[2]\<close>
  is yielded before the full batch \<open>[1, 0]\<close>.
\<close>

theorem bucket_schedule_batch_sizes_counterexample:
  "run (bucket_next zero_draws) 3
       (bucket_schedule three_samples 2 (default_args\<lparr>shuffle := True\<rparr>))
     = Some ([[2], [1, 0]], Exhausted)"
  by code_simp

subsection \<open>The warmup schedule\<close>












end
